theory Spec2Isabelle
  imports Complex_Main "HOL-Library.Multiset"
begin

section \<open>Python floats\<close>

text \<open>
  A Python \<open>float\<close> is an IEEE 754 binary64 number. A finite one is given by its real
  value; the two infinities and NaN are separate values. The sign of zero is not kept: it
  cannot be observed through \<open>-\<close>, \<open>+\<close>, \<open>abs\<close>, \<open><\<close>, \<open>==\<close> or hashing, the only
  operations the programs apply to floats.
\<close>

datatype pyfloat = Fin real | PInf | NInf | NaN

text \<open>Rounding a real to the nearest integer, a tie going to the even one.\<close>

definition rne :: "real \<Rightarrow> int" where
  "rne q =
     (let f = \<lfloor>q\<rfloor>; d = q - of_int f in
      if d < 1 / 2 then f else if 1 / 2 < d then f + 1 else if even f then f else f + 1)"

text \<open>
  \<open>ilog2 s\<close> is the number of halvings that bring \<open>s\<close> below 2. The exponent of the
  binade of \<open>x\<close> is counted from the smallest normal exponent \<open>-1022\<close>, which also serves
  all subnormal numbers.
\<close>

function ilog2 :: "real \<Rightarrow> nat" where
  "ilog2 s = (if s < 2 then 0 else Suc (ilog2 (s / 2)))"
  by pat_completeness auto
termination
proof (relation "measure (\<lambda>s. nat \<lfloor>s\<rfloor>)")
  show "wf (measure (\<lambda>s::real. nat \<lfloor>s\<rfloor>))" by simp
next
  fix s :: real
  assume "\<not> s < 2"
  then have s: "2 \<le> s" by simp
  then have "s / 2 \<le> s - 1" by simp
  then have "\<lfloor>s / 2\<rfloor> \<le> \<lfloor>s - 1\<rfloor>" by (rule floor_mono)
  also have "\<dots> = \<lfloor>s\<rfloor> - 1" by simp
  finally have "\<lfloor>s / 2\<rfloor> < \<lfloor>s\<rfloor>" by simp
  moreover from s have "0 < \<lfloor>s\<rfloor>" by simp
  ultimately show "(s / 2, s) \<in> measure (\<lambda>s. nat \<lfloor>s\<rfloor>)" by simp
qed

declare ilog2.simps [simp del]

definition double_exponent :: "real \<Rightarrow> int" where
  "double_exponent x = int (ilog2 (\<bar>x\<bar> * 2 ^ 1022)) - 1022"

text \<open>
  The result of an arithmetic operation whose exact value is \<open>x\<close>: the nearest number
  with a 53-bit significand in the binade of \<open>x\<close> (round to nearest, ties to even), and an
  infinity when that number reaches \<open>2 ^ 1024\<close>.
\<close>

definition round_double :: "real \<Rightarrow> pyfloat" where
  "round_double x =
     (let ulp = 2 powi (double_exponent x - 52);
          y = of_int (rne (x / ulp)) * ulp
      in if 2 ^ 1024 \<le> y then PInf else if y \<le> - (2 ^ 1024) then NInf else Fin y)"

text \<open>\<open>a + b\<close>, \<open>a - b\<close>, \<open>abs(a)\<close> and \<open>a < b\<close> on floats.\<close>

fun fadd :: "pyfloat \<Rightarrow> pyfloat \<Rightarrow> pyfloat" where
  "fadd (Fin x) (Fin y) = round_double (x + y)"
| "fadd NaN b = NaN"
| "fadd a NaN = NaN"
| "fadd PInf NInf = NaN"
| "fadd NInf PInf = NaN"
| "fadd PInf b = PInf"
| "fadd a PInf = PInf"
| "fadd NInf b = NInf"
| "fadd a NInf = NInf"

fun fsub :: "pyfloat \<Rightarrow> pyfloat \<Rightarrow> pyfloat" where
  "fsub (Fin x) (Fin y) = round_double (x - y)"
| "fsub NaN b = NaN"
| "fsub a NaN = NaN"
| "fsub PInf PInf = NaN"
| "fsub NInf NInf = NaN"
| "fsub PInf b = PInf"
| "fsub a NInf = PInf"
| "fsub NInf b = NInf"
| "fsub a PInf = NInf"

fun fabs :: "pyfloat \<Rightarrow> pyfloat" where
  "fabs (Fin x) = Fin \<bar>x\<bar>"
| "fabs PInf = PInf"
| "fabs NInf = PInf"
| "fabs NaN = NaN"

fun flt :: "pyfloat \<Rightarrow> pyfloat \<Rightarrow> bool" where
  "flt (Fin x) (Fin y) \<longleftrightarrow> x < y"
| "flt NaN b \<longleftrightarrow> False"
| "flt a NaN \<longleftrightarrow> False"
| "flt PInf b \<longleftrightarrow> False"
| "flt a NInf \<longleftrightarrow> False"
| "flt a PInf \<longleftrightarrow> True"
| "flt NInf b \<longleftrightarrow> True"

text \<open>
  A real that is a whole multiple of \<open>2 ^ k\<close>. Such numbers of magnitude below
  \<open>2 ^ 53 * 2 ^ k\<close> are floats, and arithmetic that stays among them does not round.
\<close>

definition multiple_of :: "int \<Rightarrow> real \<Rightarrow> bool" where
  "multiple_of k x \<longleftrightarrow> of_int \<lfloor>x / 2 powi k\<rfloor> * 2 powi k = x"

section \<open>The mixer privacy analysis (Implementations/Mixer.py)\<close>

text \<open>
  Balances are floats. The transfer amounts are finite floats, given by their real value;
  an amount that is infinite or NaN is not part of the model. A \<open>User\<close> object is compared
  by identity in the source (\<open>sender == receiver\<close> on a class without \<open>__eq__\<close>), so a user
  carries an object identity \<open>uid\<close> next to its \<open>name\<close>; the wallet it owns plays no part in
  the analysis.
\<close>

datatype error = KeyError string | IndexError | ValueError

record user =
  uid :: nat
  name :: string

type_synonym balances = "string \<rightharpoonup> pyfloat"
type_synonym flow = "string \<times> real"
type_synonym solutions = "flow set set"

text \<open>
  The literal \<open>1e-9\<close> of the base case: the float nearest to \<open>10 ^ -9\<close>, which is
  \<open>4835703278458517 / 2 ^ 82\<close>, a little above \<open>10 ^ -9\<close>.
\<close>

definition tolerance_value :: real where
  "tolerance_value = 4835703278458517 / 2 ^ 82"

definition tolerance :: pyfloat where
  "tolerance = Fin tolerance_value"

text \<open>The f-string \<open>f"{sender.name} -> {receiver.name}"\<close>.\<close>

definition flow_label :: "user \<Rightarrow> user \<Rightarrow> string" where
  "flow_label sender receiver = name sender @ '' -> '' @ name receiver"

text \<open>
  \<open>itertools.permutations(xs)\<close>: every position in turn supplies the head, followed by
  each permutation of the remaining positions; elements are told apart by position, so
  equal values give equal tuples more than once.
\<close>

function permutations :: "'a list \<Rightarrow> 'a list list" where
  "permutations xs =
     (if xs = [] then [[]]
      else concat (map (\<lambda>i. map ((#) (xs ! i)) (permutations (take i xs @ drop (Suc i) xs)))
                       [0..<length xs]))"
  by pat_completeness auto
termination
  by (relation "measure length") auto

declare permutations.simps [simp del]

text \<open>
  \<open>all(abs(current_balances[name] - final_balances[name]) < 1e-9 for name in user_names)\<close>:
  the generator is consumed left to right, stops at the first \<open>False\<close>, and a missing
  key raises \<open>KeyError\<close> (the current balance is looked up first). The difference is a
  float subtraction, so it is rounded before it is compared.
\<close>

fun balances_match :: "balances \<Rightarrow> balances \<Rightarrow> string list \<Rightarrow> error + bool" where
  "balances_match current_balances final_balances [] = Inr True"
| "balances_match current_balances final_balances (n # ns) =
     (case current_balances n of
        None \<Rightarrow> Inl (KeyError n)
      | Some c \<Rightarrow>
          (case final_balances n of
             None \<Rightarrow> Inl (KeyError n)
           | Some f \<Rightarrow>
               if flt (fabs (fsub c f)) tolerance
               then balances_match current_balances final_balances ns
               else Inr False))"

text \<open>
  The three statements that build the hypothetical state of one branch:
  \<open>new_balances = current_balances.copy(); new_balances[sender.name] -= amount;
  new_balances[receiver.name] += amount\<close>. Each augmented assignment reads the key first,
  raises \<open>KeyError\<close> when it is missing, and stores the rounded result.
\<close>

definition new_balances :: "balances \<Rightarrow> user \<Rightarrow> user \<Rightarrow> real \<Rightarrow> error + balances" where
  "new_balances current_balances sender receiver amount =
     (case current_balances (name sender) of
        None \<Rightarrow> Inl (KeyError (name sender))
      | Some bs \<Rightarrow>
          (let nb = current_balances(name sender \<mapsto> fsub bs (Fin amount)) in
           case nb (name receiver) of
             None \<Rightarrow> Inl (KeyError (name receiver))
           | Some br \<Rightarrow> Inr (nb(name receiver \<mapsto> fadd br (Fin amount)))))"

text \<open>
  \<open>find_solutions_recursive\<close>. The variables it closes over (\<open>users\<close>, \<open>final_balances\<close>,
  \<open>num_tx\<close>) are parameters, \<open>user_names\<close> is \<open>map name users\<close>, and the shared set
  \<open>unique_solutions\<close> it mutates is passed in and returned. The two \<open>for\<close> loops are folds
  over \<open>users\<close> that stop at the first exception; \<open>frozenset(path)\<close> is \<open>set path\<close>.
  Reading \<open>ordered_amounts[tx_index]\<close> past the end raises \<open>IndexError\<close>.
\<close>

function find_solutions_recursive ::
  "user list \<Rightarrow> balances \<Rightarrow> nat \<Rightarrow> nat \<Rightarrow> balances \<Rightarrow> flow list \<Rightarrow> real list \<Rightarrow> solutions
     \<Rightarrow> error + solutions" where
  "find_solutions_recursive users final_balances num_tx tx_index current_balances path
       ordered_amounts unique_solutions =
     (if tx_index = num_tx then
        (case balances_match current_balances final_balances (map name users) of
           Inl e \<Rightarrow> Inl e
         | Inr ok \<Rightarrow> Inr (if ok then insert (set path) unique_solutions else unique_solutions))
      else if length ordered_amounts \<le> tx_index then Inl IndexError
      else
        (let amount = ordered_amounts ! tx_index in
         fold (\<lambda>sender acc.
           fold (\<lambda>receiver acc.
             case acc of
               Inl e \<Rightarrow> Inl e
             | Inr sols \<Rightarrow>
                 if sender = receiver then Inr sols
                 else
                   (case new_balances current_balances sender receiver amount of
                      Inl e \<Rightarrow> Inl e
                    | Inr nb \<Rightarrow>
                        find_solutions_recursive users final_balances num_tx (tx_index + 1) nb
                          (path @ [(flow_label sender receiver, amount)]) ordered_amounts sols))
             users acc)
           users (Inr unique_solutions)))"
  by pat_completeness auto
termination
  by (relation "measure (\<lambda>(users, final_balances, num_tx, tx_index, current_balances, path,
        ordered_amounts, unique_solutions). length ordered_amounts - tx_index)") auto

declare find_solutions_recursive.simps [simp del]

text \<open>
  The loop \<open>for p in amount_permutations: find_solutions_recursive(0, initial_balances.copy(), [], p)\<close>
  over any list of orderings.
\<close>

definition run_orderings ::
  "user list \<Rightarrow> balances \<Rightarrow> nat \<Rightarrow> balances \<Rightarrow> real list list \<Rightarrow> error + solutions" where
  "run_orderings users final_balances num_tx initial_balances amount_permutations =
     fold (\<lambda>p acc.
       case acc of
         Inl e \<Rightarrow> Inl e
       | Inr sols \<Rightarrow> find_solutions_recursive users final_balances num_tx 0 initial_balances [] p sols)
       amount_permutations (Inr {})"

text \<open>
  \<open>analyze_mixer_privacy\<close>, up to the end of the search: the value is the set
  \<open>unique_solutions\<close> the report is printed from. \<open>list(set(itertools.permutations(tx_amounts)))\<close>
  keeps one copy of each tuple; the order Python's set gives them in is left open by the
  language, and \<open>remdups\<close> fixes one.
\<close>

definition amount_permutations :: "real list \<Rightarrow> real list list" where
  "amount_permutations tx_amounts = remdups (permutations tx_amounts)"

definition analyze_mixer_privacy ::
  "balances \<Rightarrow> balances \<Rightarrow> real list \<Rightarrow> user list \<Rightarrow> error + solutions" where
  "analyze_mixer_privacy initial_balances final_balances tx_amounts users =
     run_orderings users final_balances (length tx_amounts) initial_balances
       (amount_permutations tx_amounts)"

text \<open>
  The sum of the balances a dictionary holds for the participants, every name once
  (\<open>sum(balances[n] for n in set(user_names))\<close>), taken exactly over the finite balances;
  it states the conservation law.
\<close>

definition value_of :: "pyfloat option \<Rightarrow> real" where
  "value_of v = (case v of Some (Fin x) \<Rightarrow> x | _ \<Rightarrow> 0)"

definition total_balance :: "user list \<Rightarrow> balances \<Rightarrow> real" where
  "total_balance users b = (\<Sum>n\<in>name ` set users. value_of (b n))"

text \<open>
  Balances on which the arithmetic of the search is exact: every participant has a finite
  balance that is a multiple of \<open>2 ^ k\<close> and of magnitude at most \<open>M\<close>.
\<close>

definition exact_balances :: "int \<Rightarrow> real \<Rightarrow> user list \<Rightarrow> balances \<Rightarrow> bool" where
  "exact_balances k M users b \<longleftrightarrow>
     (\<forall>u\<in>set users.
        case b (name u) of Some (Fin x) \<Rightarrow> multiple_of k x \<and> \<bar>x\<bar> \<le> M | _ \<Rightarrow> False)"

text \<open>
  What one call of \<open>find_solutions_recursive\<close> adds to \<open>unique_solutions\<close> when nothing
  raises, written as a set: the amounts still to be assigned are consumed from the left,
  and every pair of different users is a branch. It is the reference the search is
  compared with in the proofs below.
\<close>

fun scenarios :: "user list \<Rightarrow> balances \<Rightarrow> balances \<Rightarrow> real list \<Rightarrow> flow list \<Rightarrow> solutions" where
  "scenarios users final_balances current_balances [] path =
     (if balances_match current_balances final_balances (map name users) = Inr True
      then {set path} else {})"
| "scenarios users final_balances current_balances (amount # amounts) path =
     (\<Union>sender\<in>set users. \<Union>receiver\<in>set users.
        if sender = receiver then {}
        else
          (case new_balances current_balances sender receiver amount of
             Inl e \<Rightarrow> {}
           | Inr nb \<Rightarrow>
               scenarios users final_balances nb amounts
                 (path @ [(flow_label sender receiver, amount)])))"

text \<open>
  The same search with two ghost counters: \<open>calls\<close> counts every entry into the function
  (the nodes of the search tree), \<open>visits\<close> counts the entries into the base case
  \<open>tx_index == num_tx\<close> (the complete assignments compared with the final balances).
  Nothing else differs from \<open>find_solutions_recursive\<close>.
\<close>

function find_solutions_counted ::
  "user list \<Rightarrow> balances \<Rightarrow> nat \<Rightarrow> nat \<Rightarrow> balances \<Rightarrow> flow list \<Rightarrow> real list
     \<Rightarrow> solutions \<Rightarrow> nat \<Rightarrow> nat \<Rightarrow> (error + solutions) \<times> nat \<times> nat" where
  "find_solutions_counted users final_balances num_tx tx_index current_balances path
       ordered_amounts unique_solutions calls visits =
     (if tx_index = num_tx then
        (case balances_match current_balances final_balances (map name users) of
           Inl e \<Rightarrow> (Inl e, calls + 1, visits + 1)
         | Inr ok \<Rightarrow>
             (Inr (if ok then insert (set path) unique_solutions else unique_solutions),
              calls + 1, visits + 1))
      else if length ordered_amounts \<le> tx_index then (Inl IndexError, calls + 1, visits)
      else
        (let amount = ordered_amounts ! tx_index in
         fold (\<lambda>sender acc.
           fold (\<lambda>receiver acc.
             case fst acc of
               Inl e \<Rightarrow> acc
             | Inr sols \<Rightarrow>
                 if sender = receiver then acc
                 else
                   (case new_balances current_balances sender receiver amount of
                      Inl e \<Rightarrow> (Inl e, snd acc)
                    | Inr nb \<Rightarrow>
                        find_solutions_counted users final_balances num_tx (tx_index + 1) nb
                          (path @ [(flow_label sender receiver, amount)]) ordered_amounts sols
                          (fst (snd acc)) (snd (snd acc))))
             users acc)
           users (Inr unique_solutions, calls + 1, visits)))"
  by pat_completeness auto
termination
  by (relation "measure (\<lambda>(users, final_balances, num_tx, tx_index, current_balances, path,
        ordered_amounts, unique_solutions, calls, visits). length ordered_amounts - tx_index)")
     auto

declare find_solutions_counted.simps [simp del]

definition analyze_counted ::
  "balances \<Rightarrow> balances \<Rightarrow> real list \<Rightarrow> user list \<Rightarrow> (error + solutions) \<times> nat \<times> nat" where
  "analyze_counted initial_balances final_balances tx_amounts users =
     fold (\<lambda>p acc.
       case fst acc of
         Inl e \<Rightarrow> acc
       | Inr sols \<Rightarrow>
           find_solutions_counted users final_balances (length tx_amounts) 0 initial_balances []
             p sols (fst (snd acc)) (snd (snd acc)))
       (amount_permutations tx_amounts) (Inr {}, 0, 0)"

text \<open>
  The report: \<open>solution_list = sorted(list(solution_frozenset), key=lambda x: x[1])\<close>.
  The argument is \<open>list(solution_frozenset)\<close>, the pairs of one solution in the order the
  frozenset iterates them, which depends on the hashes of the labels and is not fixed by
  the program. Python's \<open>sorted\<close> is stable, as \<open>sort_key\<close> is.
\<close>

definition solution_list :: "flow list \<Rightarrow> flow list" where
  "solution_list solution_enumeration = sort_key snd solution_enumeration"

section \<open>The public simulation (Implementations/Public.py)\<close>

text \<open>
  Wallets are mutable objects shared between users and transactions, so they live in a
  store indexed by object reference. \<open>Transaction.__init__\<close> returns the new object (or
  the exception) together with the store it leaves behind; balances and the amount are
  floats, and both updates store a rounded result. The fields \<open>timestamp\<close> and
  \<open>transaction_id\<close> (the clock and a SHA-256 digest) are left out.
\<close>

record wallet =
  address :: string
  balance :: pyfloat

type_synonym wallet_ref = nat
type_synonym store = "wallet_ref \<Rightarrow> wallet"

record transaction =
  sender_address :: string
  receiver_address :: string
  amount :: pyfloat

definition Transaction_init ::
  "store \<Rightarrow> wallet_ref \<Rightarrow> wallet_ref \<Rightarrow> pyfloat \<Rightarrow> (error + transaction) \<times> store" where
  "Transaction_init h sender_wallet receiver_wallet amt =
     (if flt (balance (h sender_wallet)) amt then (Inl ValueError, h)
      else
        (let self = \<lparr>sender_address = address (h sender_wallet),
                     receiver_address = address (h receiver_wallet),
                     amount = amt\<rparr>;
             h1 = h(sender_wallet := (h sender_wallet)\<lparr>balance := fsub (balance (h sender_wallet)) amt\<rparr>);
             h2 = h1(receiver_wallet := (h1 receiver_wallet)\<lparr>balance := fadd (balance (h1 receiver_wallet)) amt\<rparr>)
         in (Inr self, h2)))"

text \<open>
  \<open>Wallet.__init__\<close> gives a new wallet the balance \<open>100.0\<close>; its address, a digest of the
  owner's name, is taken as given. \<open>alice_bob\<close> is a store right after two users were
  created: reference 0 holds the first wallet, every other reference the second.
\<close>

definition Wallet_init :: "string \<Rightarrow> wallet" where
  "Wallet_init addr = \<lparr>address = addr, balance = Fin 100\<rparr>"

definition alice_bob :: store where
  "alice_bob w = Wallet_init (if w = 0 then ''1xAlice'' else ''1xBob'')"

section \<open>Rounding is exact on the grid\<close>

lemma ilog2_lower: "1 \<le> s \<Longrightarrow> 2 ^ ilog2 s \<le> s"
proof (induction s rule: ilog2.induct)
  case (1 s)
  show ?case
  proof (cases "s < 2")
    case True
    with "1.prems" show ?thesis by (simp add: ilog2.simps)
  next
    case False
    then have "2 ^ ilog2 (s / 2) \<le> s / 2"
      using "1.IH" by simp
    with False show ?thesis by (simp add: ilog2.simps [of s])
  qed
qed

lemma ilog2_upper: "s < 2 ^ Suc (ilog2 s)"
proof (induction s rule: ilog2.induct)
  case (1 s)
  show ?case
  proof (cases "s < 2")
    case True
    then show ?thesis by (simp add: ilog2.simps)
  next
    case False
    then have "s / 2 < 2 ^ Suc (ilog2 (s / 2))"
      using "1.IH" by simp
    with False show ?thesis by (simp add: ilog2.simps [of s])
  qed
qed

lemma double_exponent_ge: "- 1022 \<le> double_exponent x"
  by (simp add: double_exponent_def)

lemma two_powi_split: "(2::real) powi (int n - 1022) = 2 ^ n / 2 ^ 1022"
  by (simp add: power_int_diff)

lemma double_exponent_upper: "\<bar>x\<bar> < 2 powi (double_exponent x + 1)"
proof -
  let ?n = "ilog2 (\<bar>x\<bar> * 2 ^ 1022)"
  have "\<bar>x\<bar> * 2 ^ 1022 < 2 ^ Suc ?n" by (rule ilog2_upper)
  then have "\<bar>x\<bar> < 2 ^ Suc ?n / 2 ^ 1022"
    by (simp add: pos_less_divide_eq)
  also have "\<dots> = 2 powi (int (Suc ?n) - 1022)"
    by (simp only: two_powi_split)
  also have "int (Suc ?n) - 1022 = double_exponent x + 1"
    by (simp add: double_exponent_def)
  finally show ?thesis .
qed

lemma double_exponent_lower:
  assumes "- 1022 < double_exponent x"
  shows "2 powi double_exponent x \<le> \<bar>x\<bar>"
proof -
  let ?s = "\<bar>x\<bar> * 2 ^ 1022"
  from assms have "0 < ilog2 ?s" by (simp add: double_exponent_def)
  then have "\<not> ?s < 2" by (subst (asm) ilog2.simps) (simp split: if_splits)
  then have "2 ^ ilog2 ?s \<le> ?s" by (intro ilog2_lower) simp
  then have "2 ^ ilog2 ?s / 2 ^ 1022 \<le> \<bar>x\<bar>"
    by (simp add: pos_divide_le_eq)
  then show ?thesis
    by (simp only: double_exponent_def two_powi_split)
qed

lemma rne_of_int [simp]: "rne (of_int n) = n"
  by (simp add: rne_def)

lemma multiple_of_iff: "multiple_of k x \<longleftrightarrow> (\<exists>m::int. x = of_int m * 2 powi k)"
proof
  assume "multiple_of k x"
  then have "x = of_int \<lfloor>x / 2 powi k\<rfloor> * 2 powi k" by (simp add: multiple_of_def)
  then show "\<exists>m::int. x = of_int m * 2 powi k" ..
next
  assume "\<exists>m::int. x = of_int m * 2 powi k"
  then obtain m :: int where "x = of_int m * 2 powi k" ..
  then show "multiple_of k x" by (simp add: multiple_of_def)
qed

lemma multiple_of_add: "multiple_of k x \<Longrightarrow> multiple_of k y \<Longrightarrow> multiple_of k (x + y)"
  unfolding multiple_of_iff
proof -
  assume "\<exists>m::int. x = of_int m * 2 powi k" "\<exists>m::int. y = of_int m * 2 powi k"
  then obtain m n :: int where "x = of_int m * 2 powi k" "y = of_int n * 2 powi k" by blast
  then have "x + y = of_int (m + n) * 2 powi k" by (simp add: algebra_simps)
  then show "\<exists>m::int. x + y = of_int m * 2 powi k" ..
qed

lemma multiple_of_minus: "multiple_of k x \<Longrightarrow> multiple_of k (- x)"
  unfolding multiple_of_iff
proof -
  assume "\<exists>m::int. x = of_int m * 2 powi k"
  then obtain m :: int where "x = of_int m * 2 powi k" ..
  then have "- x = of_int (- m) * 2 powi k" by simp
  then show "\<exists>m::int. - x = of_int m * 2 powi k" ..
qed

lemma multiple_of_diff: "multiple_of k x \<Longrightarrow> multiple_of k y \<Longrightarrow> multiple_of k (x - y)"
  using multiple_of_add [of k x "- y"] multiple_of_minus [of k y] by simp

lemma round_double_exact:
  assumes mult: "multiple_of k x" and small: "\<bar>x\<bar> < 2 ^ 53 * 2 powi k"
    and k: "- 1074 \<le> k" "k \<le> 970"
  shows "round_double x = Fin x"
proof -
  let ?e = "double_exponent x"
  let ?ulp = "(2::real) powi (?e - 52)"
  from mult obtain m :: int where x: "x = of_int m * 2 powi k"
    unfolding multiple_of_iff ..
  have le: "?e - 52 \<le> k"
  proof (cases "- 1022 < ?e")
    case True
    from double_exponent_lower [OF True] small have "(2::real) powi ?e < 2 ^ 53 * 2 powi k"
      by simp
    also have "\<dots> = 2 powi (53 + k)" by (simp add: power_int_add)
    finally have lt: "(2::real) powi ?e < 2 powi (53 + k)" .
    have "?e < 53 + k"
    proof (rule ccontr)
      assume "\<not> ?e < 53 + k"
      then have "53 + k \<le> ?e" by simp
      then have "(2::real) powi (53 + k) \<le> 2 powi ?e"
        by (rule power_int_increasing) simp
      with lt show False by simp
    qed
    then show ?thesis by simp
  next
    case False
    with double_exponent_ge [of x] have "?e = - 1022" by simp
    with k show ?thesis by simp
  qed
  define j where "j = nat (k - (?e - 52))"
  with le have j: "k = (?e - 52) + int j" by simp
  have "x / ?ulp = of_int m * (2 powi k / ?ulp)" by (simp add: x)
  also have "2 powi k / ?ulp = (2::real) ^ j"
    by (subst j) (simp add: power_int_add)
  finally have q: "x / ?ulp = of_int (m * 2 ^ j)" by simp
  have y: "of_int (rne (x / ?ulp)) * ?ulp = x"
    unfolding q rne_of_int using q by (simp add: field_simps)
  have "(2::real) ^ 53 * 2 powi k \<le> 2 ^ 53 * 2 powi 970"
    using k by (intro mult_left_mono power_int_increasing) simp_all
  also have "\<dots> < 2 ^ 1024" by simp
  finally have "\<bar>x\<bar> < 2 ^ 1024" using small by simp
  then have "\<not> 2 ^ 1024 \<le> x" "\<not> x \<le> - (2 ^ 1024)" by linarith+
  then show ?thesis
    by (simp add: round_double_def Let_def y)
qed

lemma round_double_int:
  assumes "\<bar>m\<bar> < 2 ^ 53"
  shows "round_double (of_int m) = Fin (of_int m)"
proof (rule round_double_exact [where k = 0])
  show "multiple_of 0 (of_int m)" by (simp add: multiple_of_def)
  from assms have "\<bar>real_of_int m\<bar> < real_of_int (2 ^ 53)"
    by (simp only: of_int_abs [symmetric] of_int_less_iff)
  then show "\<bar>real_of_int m\<bar> < 2 ^ 53 * 2 powi 0" by simp
qed simp_all

lemma double_exponent_eq:
  assumes lo: "2 powi e \<le> \<bar>x\<bar>" and hi: "\<bar>x\<bar> < 2 powi (e + 1)" and e: "- 1022 \<le> e"
  shows "double_exponent x = e"
proof -
  let ?d = "double_exponent x"
  have lt_imp: "a < b" if "(2::real) powi a < 2 powi b" for a b :: int
  proof (rule ccontr)
    assume "\<not> a < b"
    then have "b \<le> a" by simp
    then have "(2::real) powi b \<le> 2 powi a" by (rule power_int_increasing) simp
    with that show False by simp
  qed
  from lo double_exponent_upper [of x] have "(2::real) powi e < 2 powi (?d + 1)"
    by simp
  then have le: "e \<le> ?d" using lt_imp by fastforce
  have "?d \<le> e"
  proof (rule ccontr)
    assume "\<not> ?d \<le> e"
    with e have "- 1022 < ?d" by simp
    from double_exponent_lower [OF this] hi have "(2::real) powi ?d < 2 powi (e + 1)"
      by simp
    then have "?d < e + 1" by (rule lt_imp)
    with \<open>\<not> ?d \<le> e\<close> show False by simp
  qed
  with le show ?thesis by simp
qed

lemma rne_near:
  assumes "\<bar>q - of_int n\<bar> < 1 / 2"
  shows "rne q = n"
proof (cases "of_int n \<le> q")
  case True
  with assms have "\<lfloor>q\<rfloor> = n" by (intro floor_unique) (simp_all add: abs_if split: if_splits)
  with assms True show ?thesis by (simp add: rne_def Let_def abs_if split: if_splits)
next
  case False
  with assms have f: "\<lfloor>q\<rfloor> = n - 1"
    by (intro floor_unique) (simp_all add: abs_if split: if_splits)
  from assms False have "1 / 2 < q - of_int (n - 1)"
    by (simp add: abs_if split: if_splits)
  with f show ?thesis by (simp add: rne_def Let_def)
qed

lemma round_double_near:
  assumes lo: "2 powi e \<le> \<bar>x\<bar>" and hi: "\<bar>x\<bar> < 2 powi (e + 1)"
    and e: "- 1022 \<le> e" "e \<le> 1022"
    and n: "\<bar>x / 2 powi (e - 52) - of_int n\<bar> < 1 / 2"
  shows "round_double x = Fin (of_int n * 2 powi (e - 52))"
proof -
  let ?ulp = "(2::real) powi (e - 52)"
  have d: "double_exponent x = e" by (rule double_exponent_eq [OF lo hi e(1)])
  have r: "rne (x / ?ulp) = n" by (rule rne_near [OF n])
  have ulp: "0 < ?ulp" by simp
  have "\<bar>of_int n * ?ulp - x\<bar> = \<bar>of_int n - x / ?ulp\<bar> * ?ulp"
    using ulp by (simp add: abs_mult_pos [symmetric] field_simps)
  also have "\<dots> < 1 / 2 * ?ulp"
    using n ulp by (intro mult_strict_right_mono) (simp_all add: abs_minus_commute)
  finally have "\<bar>of_int n * ?ulp - x\<bar> < 1 / 2 * ?ulp" .
  with ulp have close: "\<bar>of_int n * ?ulp - x\<bar> < ?ulp" by linarith
  have "?ulp \<le> 2 powi (e + 1)" by (rule power_int_increasing) simp_all
  with close hi have "\<bar>of_int n * ?ulp\<bar> < 2 powi (e + 1) + 2 powi (e + 1)" by linarith
  also have "\<dots> = 2 powi (e + 2)" by (simp add: power_int_add)
  also have "\<dots> \<le> 2 powi 1024" using e by (intro power_int_increasing) simp_all
  finally have "\<bar>of_int n * ?ulp\<bar> < 2 ^ 1024" by simp
  then have "\<not> 2 ^ 1024 \<le> of_int n * ?ulp" "\<not> of_int n * ?ulp \<le> - (2 ^ 1024)"
    by linarith+
  then show ?thesis
    by (simp add: round_double_def Let_def d r)
qed

section \<open>The permutation enumerator\<close>

lemma mset_remove_nth:
  "i < length xs \<Longrightarrow> add_mset (xs ! i) (mset (take i xs @ drop (Suc i) xs)) = mset xs"
proof -
  assume "i < length xs"
  then have "xs = take i xs @ xs ! i # drop (Suc i) xs"
    by (rule id_take_nth_drop)
  then have "mset xs = mset (take i xs @ xs ! i # drop (Suc i) xs)"
    by simp
  then show ?thesis by simp
qed

lemma set_permutations: "set (permutations xs) = {ys. mset ys = mset xs}"
proof (induction xs rule: permutations.induct)
  case (1 xs)
  show ?case
  proof (cases "xs = []")
    case True
    then show ?thesis by (simp add: permutations.simps)
  next
    case False
    have IH: "set (permutations (take i xs @ drop (Suc i) xs))
                = {ys. mset ys = mset (take i xs @ drop (Suc i) xs)}" if "i < length xs" for i
      using "1.IH" [of i] False that by simp
    have unfold: "set (permutations xs)
        = (\<Union>i\<in>{0..<length xs}. (#) (xs ! i) ` set (permutations (take i xs @ drop (Suc i) xs)))"
      using False by (subst permutations.simps) simp
    show ?thesis
    proof (rule set_eqI, rule iffI)
      fix ys assume "ys \<in> set (permutations xs)"
      then obtain i zs where i: "i < length xs" and ys: "ys = xs ! i # zs"
        and zs: "zs \<in> set (permutations (take i xs @ drop (Suc i) xs))"
        unfolding unfold by auto
      from zs IH [OF i] have "mset zs = mset (take i xs @ drop (Suc i) xs)" by simp
      with mset_remove_nth [OF i] ys show "ys \<in> {ys. mset ys = mset xs}" by simp
    next
      fix ys assume "ys \<in> {ys. mset ys = mset xs}"
      then have m: "mset ys = mset xs" by simp
      with False have "ys \<noteq> []" by auto
      then obtain y zs where ys: "ys = y # zs" by (cases ys) auto
      with m have "y \<in> set xs" by (metis list.set_intros(1) mset_eq_setD)
      then obtain i where i: "i < length xs" and y: "xs ! i = y"
        by (auto simp: in_set_conv_nth)
      from m ys y mset_remove_nth [OF i]
      have "add_mset y (mset zs) = add_mset y (mset (take i xs @ drop (Suc i) xs))" by simp
      then have "mset zs = mset (take i xs @ drop (Suc i) xs)" by simp
      with IH [OF i] have "zs \<in> set (permutations (take i xs @ drop (Suc i) xs))" by simp
      with i y ys show "ys \<in> set (permutations xs)" unfolding unfold by auto
    qed
  qed
qed

lemma length_permutations: "length (permutations xs) = fact (length xs)"
proof (induction xs rule: permutations.induct)
  case (1 xs)
  show ?case
  proof (cases "xs = []")
    case True
    then show ?thesis by (simp add: permutations.simps)
  next
    case False
    then obtain n where n: "length xs = Suc n" by (cases xs) auto
    have IH: "length (permutations (take i xs @ drop (Suc i) xs)) = fact n" if "i < length xs" for i
    proof -
      from that have mem: "i \<in> set [0..<length xs]" by simp
      from that n have "length (take i xs @ drop (Suc i) xs) = n" by auto
      with "1.IH" [OF False mem] show ?thesis by simp
    qed
    have "length (permutations xs)
        = sum_list (map (\<lambda>i. length (permutations (take i xs @ drop (Suc i) xs))) [0..<length xs])"
      using False by (subst permutations.simps) (simp add: length_concat comp_def)
    also have "\<dots> = sum_list (map (\<lambda>i. fact n) [0..<length xs])"
      using IH by (intro arg_cong [where f = sum_list] map_cong) auto
    also have "\<dots> = fact (length xs)"
      using n by (simp add: sum_list_triv)
    finally show ?thesis .
  qed
qed

lemma length_amount_permutations:
  "length (amount_permutations tx_amounts) \<le> fact (length tx_amounts)"
  unfolding amount_permutations_def
  using length_remdups_leq [of "permutations tx_amounts"]
  by (simp add: length_permutations)

lemma set_amount_permutations:
  "set (amount_permutations tx_amounts) = {p. mset p = mset tx_amounts}"
  by (simp add: amount_permutations_def set_permutations)

lemma length_of_ordering:
  "p \<in> set (amount_permutations tx_amounts) \<Longrightarrow> length p = length tx_amounts"
  by (auto simp: set_amount_permutations dest: mset_eq_length)

text \<open>
  Claim C6. The orderings the analysis iterates over are exactly the distinct
  value-sequences that permute the amounts: a sequence is among them precisely when it
  has the same multiset of values, none occurs twice, there are at most \<open>N!\<close> of them,
  and for no amounts at all there is the single empty ordering.
\<close>

theorem amount_permutations_exact:
  "distinct (amount_permutations tx_amounts)
   \<and> set (amount_permutations tx_amounts) = {p. mset p = mset tx_amounts}
   \<and> length (amount_permutations tx_amounts) \<le> fact (length tx_amounts)
   \<and> amount_permutations [] = [[]]"
proof -
  have "amount_permutations [] = [[]]"
    by (simp add: amount_permutations_def permutations.simps)
  then show ?thesis
    using set_amount_permutations [of tx_amounts] length_amount_permutations [of tx_amounts]
    by (simp add: amount_permutations_def)
qed

section \<open>The search computes the set of scenarios\<close>

lemma fold_Inl:
  assumes "\<And>x e. h x (Inl e) = Inl e"
  shows "fold h xs (Inl e) = Inl e"
  using assms by (induction xs) auto

lemma fold_collect:
  fixes h :: "'a \<Rightarrow> error + 'b set \<Rightarrow> error + 'b set"
  assumes strict: "\<And>x e. h x (Inl e) = Inl e"
    and step: "\<And>x T T'. x \<in> set xs \<Longrightarrow> h x (Inr T) = Inr T' \<Longrightarrow> T' = T \<union> g x"
    and run: "fold h xs (Inr S) = Inr S'"
  shows "S' = S \<union> (\<Union>x\<in>set xs. g x)"
  using step run
proof (induction xs arbitrary: S)
  case Nil
  then show ?case by simp
next
  case (Cons x xs)
  show ?case
  proof (cases "h x (Inr S)")
    case (Inl e)
    with Cons.prems(2) fold_Inl [of h xs e, OF strict] show ?thesis by simp
  next
    case (Inr T)
    with Cons.prems(1) [of x S T] have T: "T = S \<union> g x" by simp
    from Cons.prems(2) Inr have "fold h xs (Inr T) = Inr S'" by simp
    with Cons.IH [of T] Cons.prems(1) have "S' = T \<union> (\<Union>x\<in>set xs. g x)" by simp
    with T show ?thesis by auto
  qed
qed

lemma fold_total:
  fixes h :: "'a \<Rightarrow> error + 'b set \<Rightarrow> error + 'b set"
  assumes "\<And>x T. x \<in> set xs \<Longrightarrow> \<exists>T'. h x (Inr T) = Inr T'"
  shows "\<exists>S'. fold h xs (Inr S) = Inr S'"
  using assms
proof (induction xs arbitrary: S)
  case Nil
  then show ?case by simp
next
  case (Cons x xs)
  from Cons.prems [of x S] obtain T where "h x (Inr S) = Inr T" by auto
  with Cons.IH [of T] Cons.prems show ?case by simp
qed

lemma fsr_base:
  "find_solutions_recursive users fin N N cur path oa S =
     (case balances_match cur fin (map name users) of
        Inl e \<Rightarrow> Inl e
      | Inr ok \<Rightarrow> Inr (if ok then insert (set path) S else S))"
  by (subst find_solutions_recursive.simps) simp

lemma fsr_step:
  assumes "i < N" "N \<le> length oa"
  shows "find_solutions_recursive users fin N i cur path oa S =
     fold (\<lambda>sender acc.
       fold (\<lambda>receiver acc.
         case acc of
           Inl e \<Rightarrow> Inl e
         | Inr sols \<Rightarrow>
             if sender = receiver then Inr sols
             else
               (case new_balances cur sender receiver (oa ! i) of
                  Inl e \<Rightarrow> Inl e
                | Inr nb \<Rightarrow>
                    find_solutions_recursive users fin N (i + 1) nb
                      (path @ [(flow_label sender receiver, oa ! i)]) oa sols))
         users acc)
       users (Inr S)"
  using assms by (subst find_solutions_recursive.simps) (simp add: Let_def)

lemma fsr_sound:
  assumes "length oa = N" "i \<le> N"
    and "find_solutions_recursive users fin N i cur path oa S = Inr S'"
  shows "S' = S \<union> scenarios users fin cur (drop i oa) path"
  using assms(2,3)
proof (induction "N - i" arbitrary: i cur path S S')
  case 0
  then have i: "i = N" by simp
  with assms(1) have d: "drop i oa = []" by simp
  from "0.prems"(2) show ?case
    unfolding i fsr_base d [unfolded i]
    by (auto split: sum.splits if_splits)
next
  case (Suc k)
  then have i: "i < N" by simp
  with assms(1) have d: "drop i oa = oa ! i # drop (Suc i) oa"
    by (simp add: Cons_nth_drop_Suc)
  let ?a = "oa ! i"
  let ?inner = "\<lambda>sender receiver acc.
         case acc of
           Inl e \<Rightarrow> Inl e
         | Inr sols \<Rightarrow>
             if sender = receiver then Inr sols
             else
               (case new_balances cur sender receiver ?a of
                  Inl e \<Rightarrow> Inl e
                | Inr nb \<Rightarrow>
                    find_solutions_recursive users fin N (i + 1) nb
                      (path @ [(flow_label sender receiver, ?a)]) oa sols)"
  let ?g = "\<lambda>sender receiver. if sender = receiver then {}
        else (case new_balances cur sender receiver ?a of
             Inl e \<Rightarrow> {}
           | Inr nb \<Rightarrow> scenarios users fin nb (drop (Suc i) oa)
                 (path @ [(flow_label sender receiver, ?a)]))"
  have IH: "T' = T \<union> scenarios users fin nb (drop (Suc i) oa) p"
    if "find_solutions_recursive users fin N (i + 1) nb p oa T = Inr T'" for nb p T T'
    using Suc.hyps(1) [of "Suc i" nb p T T'] Suc.hyps(2) i that by simp
  have inner_step: "T' = T \<union> ?g s r" if "?inner s r (Inr T) = Inr T'" for s r T T'
    using that IH by (auto split: if_splits sum.splits)
  have inner_strict: "?inner s r (Inl e) = Inl e" for s r e by simp
  have outer_strict: "fold (?inner s) users (Inl e) = Inl e" for s e
    by (rule fold_Inl) simp
  have outer_step: "T' = T \<union> (\<Union>r\<in>set users. ?g s r)"
    if "fold (?inner s) users (Inr T) = Inr T'" for s T T'
    by (rule fold_collect [where h = "?inner s", OF _ _ that]) (use inner_step in auto)
  from Suc.prems(2) have run: "fold (\<lambda>s acc. fold (?inner s) users acc) users (Inr S) = Inr S'"
    using fsr_step [OF i, of oa users fin cur path S] assms(1) by simp
  have "S' = S \<union> (\<Union>s\<in>set users. \<Union>r\<in>set users. ?g s r)"
    by (rule fold_collect [where h = "\<lambda>s acc. fold (?inner s) users acc", OF _ _ run])
       (use outer_strict outer_step in auto)
  then show ?case unfolding d by simp
qed


lemma balances_match_wf:
  assumes "set ns \<subseteq> dom cur" "set ns \<subseteq> dom fin"
  shows "balances_match cur fin ns
           = Inr (\<forall>n\<in>set ns. flt (fabs (fsub (the (cur n)) (the (fin n)))) tolerance)"
  using assms by (induction ns) auto

lemma new_balances_wf:
  assumes "name s \<in> dom cur" "name r \<in> dom cur"
  shows "\<exists>nb. new_balances cur s r a = Inr nb"
  using assms by (auto simp: new_balances_def Let_def split: option.splits)

lemma new_balances_dom:
  assumes "new_balances cur s r a = Inr nb"
  shows "dom nb = dom cur"
  using assms by (auto simp: new_balances_def Let_def split: option.splits if_splits)

lemma fsr_total:
  assumes "length oa = N" "i \<le> N" "name ` set users \<subseteq> dom fin"
    and "name ` set users \<subseteq> dom cur"
  shows "\<exists>S'. find_solutions_recursive users fin N i cur path oa S = Inr S'"
  using assms(2,4)
proof (induction "N - i" arbitrary: i cur path S)
  case 0
  then have i: "i = N" by simp
  from "0.prems"(2) assms(3) show ?case
    unfolding i fsr_base by (simp add: balances_match_wf)
next
  case (Suc k)
  then have i: "i < N" by simp
  let ?a = "oa ! i"
  let ?inner = "\<lambda>sender receiver acc.
         case acc of
           Inl e \<Rightarrow> Inl e
         | Inr sols \<Rightarrow>
             if sender = receiver then Inr sols
             else
               (case new_balances cur sender receiver ?a of
                  Inl e \<Rightarrow> Inl e
                | Inr nb \<Rightarrow>
                    find_solutions_recursive users fin N (i + 1) nb
                      (path @ [(flow_label sender receiver, ?a)]) oa sols)"
  have IH: "\<exists>T'. find_solutions_recursive users fin N (i + 1) nb p oa T = Inr T'"
    if "dom nb = dom cur" for nb p T
    using Suc.hyps(1) [of "Suc i" nb p T] Suc.hyps(2) Suc.prems(2) i that by simp
  have inner_step: "\<exists>T'. ?inner s r (Inr T) = Inr T'"
    if "s \<in> set users" "r \<in> set users" for s r T
  proof (cases "s = r")
    case True
    then show ?thesis by simp
  next
    case False
    from that Suc.prems(2) have "name s \<in> dom cur" "name r \<in> dom cur" by auto
    from new_balances_wf [OF this] obtain nb where nb: "new_balances cur s r ?a = Inr nb" ..
    from IH [OF new_balances_dom [OF nb]] nb False show ?thesis by simp
  qed
  have outer_step: "\<exists>T'. fold (?inner s) users (Inr T) = Inr T'" if "s \<in> set users" for s T
    by (rule fold_total) (use inner_step that in blast)
  have "\<exists>S'. fold (\<lambda>s acc. fold (?inner s) users acc) users (Inr S) = Inr S'"
    by (rule fold_total) (use outer_step in blast)
  then show ?case
    using fsr_step [OF i, of oa users fin cur path S] assms(1) by simp
qed

lemma run_orderings_sound:
  assumes "\<And>p. p \<in> set ps \<Longrightarrow> length p = N"
    and "run_orderings users fin N init ps = Inr S"
  shows "S = (\<Union>p\<in>set ps. scenarios users fin init p [])"
proof -
  let ?h = "\<lambda>p acc. case acc of Inl e \<Rightarrow> Inl e
     | Inr sols \<Rightarrow> find_solutions_recursive users fin N 0 init [] p sols"
  have step: "T' = T \<union> scenarios users fin init p []"
    if "p \<in> set ps" "?h p (Inr T) = Inr T'" for p T T'
    using fsr_sound [of p N 0 users fin init "[]" T T'] assms(1) [OF that(1)] that(2) by simp
  from assms(2) have run: "fold ?h ps (Inr {}) = Inr S"
    by (simp add: run_orderings_def)
  have "S = {} \<union> (\<Union>p\<in>set ps. scenarios users fin init p [])"
    by (rule fold_collect [where h = ?h, OF _ _ run]) (use step in auto)
  then show ?thesis by simp
qed

lemma run_orderings_total:
  assumes "\<And>p. p \<in> set ps \<Longrightarrow> length p = N"
    and "name ` set users \<subseteq> dom init" "name ` set users \<subseteq> dom fin"
  shows "\<exists>S. run_orderings users fin N init ps = Inr S"
  unfolding run_orderings_def
proof (rule fold_total)
  fix p T assume "p \<in> set ps"
  then have "length p = N" by (rule assms(1))
  from fsr_total [OF this _ assms(3,2), of 0 "[]" T]
  show "\<exists>T'. (case Inr T of Inl e \<Rightarrow> Inl e
        | Inr sols \<Rightarrow> find_solutions_recursive users fin N 0 init [] p sols) = Inr T'"
    by simp
qed

lemma run_orderings_wf:
  assumes "\<And>p. p \<in> set ps \<Longrightarrow> length p = N"
    and "name ` set users \<subseteq> dom init" "name ` set users \<subseteq> dom fin"
  shows "run_orderings users fin N init ps = Inr (\<Union>p\<in>set ps. scenarios users fin init p [])"
  using run_orderings_total [OF assms] run_orderings_sound [OF assms(1)] by blast

lemma analyze_sound:
  assumes "analyze_mixer_privacy init fin amounts users = Inr S"
  shows "S = (\<Union>p\<in>{p. mset p = mset amounts}. scenarios users fin init p [])"
proof -
  have len: "length p = length amounts" if "p \<in> set (amount_permutations amounts)" for p
    using that by (rule length_of_ordering)
  from assms have "run_orderings users fin (length amounts) init (amount_permutations amounts) = Inr S"
    by (simp add: analyze_mixer_privacy_def)
  from run_orderings_sound [OF len this] show ?thesis
    by (simp only: set_amount_permutations)
qed

lemma analyze_wf:
  assumes "name ` set users \<subseteq> dom init" "name ` set users \<subseteq> dom fin"
  shows "analyze_mixer_privacy init fin amounts users
     = Inr (\<Union>p\<in>{p. mset p = mset amounts}. scenarios users fin init p [])"
proof -
  have len: "length p = length amounts" if "p \<in> set (amount_permutations amounts)" for p
    using that by (rule length_of_ordering)
  from run_orderings_wf [of "amount_permutations amounts" "length amounts", OF len assms]
  show ?thesis
    by (simp only: analyze_mixer_privacy_def set_amount_permutations)
qed

section \<open>Floats that need no rounding, and some that do\<close>

lemma round_double_numeral [simp]:
  "(numeral n :: int) < 2 ^ 53 \<Longrightarrow> round_double (numeral n) = Fin (numeral n)"
  using round_double_int [of "numeral n"] by simp

lemma round_double_neg_numeral [simp]:
  "(numeral n :: int) < 2 ^ 53 \<Longrightarrow> round_double (- numeral n) = Fin (- numeral n)"
  using round_double_int [of "- numeral n"] by simp

lemma round_double_zero [simp]: "round_double 0 = Fin 0"
  using round_double_int [of 0] by simp

lemma round_double_one [simp]: "round_double 1 = Fin 1"
  using round_double_int [of 1] by simp

lemma round_double_minus_one [simp]: "round_double (- 1) = Fin (- 1)"
  using round_double_int [of "- 1"] by simp

lemma round_double_absorbed:
  "round_double (4835703278458517 / 2 ^ 82 - 8711228593176025 / 2 ^ 136)
     = Fin (4835703278458517 / 2 ^ 82)"
  using round_double_near [of "- 30" "4835703278458517 / 2 ^ 82 - 8711228593176025 / 2 ^ 136"
      4835703278458517]
  by simp

section \<open>Exact results on two participants\<close>

lemma permutations_single: "permutations [x] = [[x]]"
  by (simp add: permutations.simps)

lemma analyze_two_users:
  "analyze_mixer_privacy [''A'' \<mapsto> Fin 100, ''B'' \<mapsto> Fin 100]
     [''A'' \<mapsto> Fin 90, ''B'' \<mapsto> Fin 110] [10]
     [\<lparr>uid = ia, name = ''A''\<rparr>, \<lparr>uid = ib, name = ''B''\<rparr>]
   = Inr {{(''A -> B'', 10)}}"
  by (simp add: analyze_mixer_privacy_def amount_permutations_def permutations_single
      run_orderings_def find_solutions_recursive.simps new_balances_def flow_label_def
      tolerance_def tolerance_value_def)

text \<open>
  Claim C2. Two participants, \<open>A\<close> going from 100 to 90 and \<open>B\<close> from 100 to 110, and the
  single amount 10.0: the analysis ends with exactly one solution, whose only pair is
  \<open>("A -> B", 10.0)\<close>. This holds whatever object identities the two users have.
\<close>

theorem two_participants_exact:
  "analyze_mixer_privacy [''A'' \<mapsto> Fin 100, ''B'' \<mapsto> Fin 100]
     [''A'' \<mapsto> Fin 90, ''B'' \<mapsto> Fin 110] [10]
     [\<lparr>uid = ia, name = ''A''\<rparr>, \<lparr>uid = ib, name = ''B''\<rparr>]
   = Inr {{(''A -> B'', 10)}}"
  by (rule analyze_two_users)

section \<open>The base case: acceptance and the canonical form\<close>

text \<open>
  Claim C3. When two complete paths \<open>p\<close> and \<open>q\<close> are accepted one after the other, each
  is entered into the solution set as its set of (label, amount) pairs: the second one is
  a new element exactly when its pair set differs from the first one's (and is not in the
  set already), and a path that is a reordering of the first adds nothing.
\<close>

theorem canonical_by_pair_set:
  assumes "balances_match cur_p final_balances (map name users) = Inr True"
    and "balances_match cur_q final_balances (map name users) = Inr True"
  shows "\<exists>S1 S2.
      find_solutions_recursive users final_balances N N cur_p p oa S = Inr S1
    \<and> find_solutions_recursive users final_balances N N cur_q q ob S1 = Inr S2
    \<and> S1 = insert (set p) S \<and> S2 = insert (set q) S1
    \<and> (set q \<notin> S \<longrightarrow> (S2 = S1 \<longleftrightarrow> set q = set p))
    \<and> (mset q = mset p \<longrightarrow> S2 = S1)"
proof -
  have "mset q = mset p \<Longrightarrow> set q = set p" by (rule mset_eq_setD)
  then show ?thesis
    using assms by (auto simp: fsr_base)
qed

theorem canonical_by_pair_set_witness:
  "balances_match [''A'' \<mapsto> Fin 90, ''B'' \<mapsto> Fin 110] [''A'' \<mapsto> Fin 90, ''B'' \<mapsto> Fin 110]
      (map name [\<lparr>uid = 0, name = ''A''\<rparr>, \<lparr>uid = 1, name = ''B''\<rparr>]) = Inr True
   \<and> (\<exists>S1.
        find_solutions_recursive [\<lparr>uid = 0, name = ''A''\<rparr>, \<lparr>uid = 1, name = ''B''\<rparr>]
          [''A'' \<mapsto> Fin 90, ''B'' \<mapsto> Fin 110] 2 2 [''A'' \<mapsto> Fin 90, ''B'' \<mapsto> Fin 110]
          [(''A -> B'', 4), (''A -> B'', 6)] [4, 6] {} = Inr S1
      \<and> find_solutions_recursive [\<lparr>uid = 0, name = ''A''\<rparr>, \<lparr>uid = 1, name = ''B''\<rparr>]
          [''A'' \<mapsto> Fin 90, ''B'' \<mapsto> Fin 110] 2 2 [''A'' \<mapsto> Fin 90, ''B'' \<mapsto> Fin 110]
          [(''A -> B'', 6), (''A -> B'', 4)] [6, 4] S1 = Inr S1
      \<and> S1 = {{(''A -> B'', 4), (''A -> B'', 6)}})"
proof -
  have m: "balances_match [''A'' \<mapsto> Fin 90, ''B'' \<mapsto> Fin 110] [''A'' \<mapsto> Fin 90, ''B'' \<mapsto> Fin 110]
      (map name [\<lparr>uid = 0, name = ''A''\<rparr>, \<lparr>uid = 1, name = ''B''\<rparr>]) = Inr True"
    by (simp add: tolerance_def tolerance_value_def)
  have p: "mset [(''A -> B'', 6::real), (''A -> B'', 4)] = mset [(''A -> B'', 4), (''A -> B'', 6)]"
    by simp
  from canonical_by_pair_set [OF m m, of 2 "[(''A -> B'', 4), (''A -> B'', 6)]" "[4, 6]" "{}"
      "[(''A -> B'', 6), (''A -> B'', 4)]" "[6, 4]"] p m
  show ?thesis by auto
qed

text \<open>
  Claim C5, amended. At \<open>tx_index = num_tx\<close>, with every participant present in both
  dictionaries, the path is added to the solution set if and only if, for every
  participant, the float expression \<open>abs(current - final) < 1e-9\<close> is true: the
  difference is rounded to the nearest float before it is compared with the float nearest
  to \<open>1e-9\<close>. Otherwise the solution set is returned as it was.
\<close>

theorem base_case_acceptance:
  assumes "name ` set users \<subseteq> dom current_balances"
    and "name ` set users \<subseteq> dom final_balances"
  shows "find_solutions_recursive users final_balances N N current_balances path oa S
    = Inr (if \<forall>u\<in>set users.
                flt (fabs (fsub (the (current_balances (name u))) (the (final_balances (name u)))))
                  tolerance
           then insert (set path) S else S)"
  using assms by (simp add: fsr_base balances_match_wf)

theorem base_case_acceptance_witness:
  "name ` set [\<lparr>uid = 0, name = ''A''\<rparr>, \<lparr>uid = 1, name = ''B''\<rparr>]
      \<subseteq> dom [''A'' \<mapsto> Fin 90, ''B'' \<mapsto> Fin 110]
   \<and> name ` set [\<lparr>uid = 0, name = ''A''\<rparr>, \<lparr>uid = 1, name = ''B''\<rparr>]
      \<subseteq> dom [''A'' \<mapsto> Fin 110, ''B'' \<mapsto> Fin 90]
   \<and> find_solutions_recursive [\<lparr>uid = 0, name = ''A''\<rparr>, \<lparr>uid = 1, name = ''B''\<rparr>]
        [''A'' \<mapsto> Fin 90, ''B'' \<mapsto> Fin 110] 1 1 [''A'' \<mapsto> Fin 90, ''B'' \<mapsto> Fin 110]
        [(''A -> B'', 10)] [10] {} = Inr {{(''A -> B'', 10)}}
   \<and> find_solutions_recursive [\<lparr>uid = 0, name = ''A''\<rparr>, \<lparr>uid = 1, name = ''B''\<rparr>]
        [''A'' \<mapsto> Fin 90, ''B'' \<mapsto> Fin 110] 1 1 [''A'' \<mapsto> Fin 110, ''B'' \<mapsto> Fin 90]
        [(''B -> A'', 10)] [10] {} = Inr {}"
proof -
  let ?U = "[\<lparr>uid = 0, name = ''A''\<rparr>, \<lparr>uid = 1, name = ''B''\<rparr>]"
  have d1: "name ` set ?U \<subseteq> dom [''A'' \<mapsto> Fin 90, ''B'' \<mapsto> Fin 110]" by simp
  have d2: "name ` set ?U \<subseteq> dom [''A'' \<mapsto> Fin 110, ''B'' \<mapsto> Fin 90]" by simp
  from base_case_acceptance [OF d1 d1, of 1 "[(''A -> B'', 10)]" "[10]" "{}"]
    base_case_acceptance [OF d2 d1, of 1 "[(''B -> A'', 10)]" "[10]" "{}"] d1 d2
  show ?thesis by (simp add: tolerance_def tolerance_value_def)
qed

text \<open>
  The claim as stated, with the differences taken exactly, fails: a running balance of
  \<open>1e-9\<close> and a final balance of \<open>1e-25\<close> differ by less than \<open>10 ^ -9\<close> (and by less than
  the float \<open>1e-9\<close>), but the float subtraction returns \<open>1e-9\<close> again, which is not below
  the tolerance, and the path is rejected.
\<close>

theorem base_case_rounding_counterexample:
  "\<bar>tolerance_value - 8711228593176025 / 2 ^ 136\<bar> < 1 / 10 ^ 9
   \<and> \<bar>tolerance_value - 8711228593176025 / 2 ^ 136\<bar> < tolerance_value
   \<and> find_solutions_recursive [\<lparr>uid = 0, name = ''A''\<rparr>]
        [''A'' \<mapsto> Fin (8711228593176025 / 2 ^ 136)] 0 0 [''A'' \<mapsto> Fin tolerance_value] [] [] {}
      = Inr {}"
proof (intro conjI)
  show "\<bar>tolerance_value - 8711228593176025 / 2 ^ 136\<bar> < 1 / 10 ^ 9"
    by (simp add: tolerance_value_def)
  show "\<bar>tolerance_value - 8711228593176025 / 2 ^ 136\<bar> < tolerance_value"
    by (simp add: tolerance_value_def)
  have "fsub (Fin tolerance_value) (Fin (8711228593176025 / 2 ^ 136)) = Fin tolerance_value"
    unfolding tolerance_value_def fsub.simps by (rule round_double_absorbed)
  then show "find_solutions_recursive [\<lparr>uid = 0, name = ''A''\<rparr>]
        [''A'' \<mapsto> Fin (8711228593176025 / 2 ^ 136)] 0 0 [''A'' \<mapsto> Fin tolerance_value] [] [] {}
      = Inr {}"
    by (simp add: fsr_base tolerance_def)
qed

section \<open>Properties of every scenario\<close>

lemma in_case_sum_iff:
  "x \<in> (case v of Inl e \<Rightarrow> {} | Inr nb \<Rightarrow> F nb) \<longleftrightarrow> (\<exists>nb. v = Inr nb \<and> x \<in> F nb)"
  by (cases v) auto

lemma scenarios_Cons_iff:
  "sol \<in> scenarios users fin cur (a # amounts) path \<longleftrightarrow>
     (\<exists>s\<in>set users. \<exists>r\<in>set users. s \<noteq> r \<and>
        (\<exists>nb. new_balances cur s r a = Inr nb
           \<and> sol \<in> scenarios users fin nb amounts (path @ [(flow_label s r, a)])))"
  by (auto simp: in_case_sum_iff)

lemma scenarios_labels:
  assumes "sol \<in> scenarios users fin cur amounts path" "fl \<in> sol"
  shows "fl \<in> set path \<or> (\<exists>s\<in>set users. \<exists>r\<in>set users. s \<noteq> r \<and> fst fl = flow_label s r)"
  using assms
proof (induction amounts arbitrary: cur path)
  case Nil
  then show ?case by (auto split: if_splits)
next
  case (Cons a amounts)
  from Cons.prems(1) obtain s r nb where sr: "s \<in> set users" "r \<in> set users" "s \<noteq> r"
    and "new_balances cur s r a = Inr nb"
    and "sol \<in> scenarios users fin nb amounts (path @ [(flow_label s r, a)])"
    unfolding scenarios_Cons_iff by blast
  from Cons.IH [OF this(5) Cons.prems(2)]
  have "fl \<in> set path \<or> fl = (flow_label s r, a)
      \<or> (\<exists>s\<in>set users. \<exists>r\<in>set users. s \<noteq> r \<and> fst fl = flow_label s r)"
    by auto
  with sr show ?case by fastforce
qed


text \<open>
  Claim C4. Every pair of every solution the analysis returns carries the label of two
  different users of the input, sender and receiver; when the participants' names are
  unique, as the data model has them, the two names differ as well.
\<close>

theorem no_self_transfer:
  assumes "analyze_mixer_privacy initial_balances final_balances tx_amounts users = Inr S"
    and "sol \<in> S" and "(label, a) \<in> sol"
  shows "\<exists>sender\<in>set users. \<exists>receiver\<in>set users.
           sender \<noteq> receiver \<and> label = flow_label sender receiver
         \<and> (inj_on name (set users) \<longrightarrow> name sender \<noteq> name receiver)"
proof -
  from analyze_sound [OF assms(1)] assms(2)
  obtain p where "sol \<in> scenarios users final_balances initial_balances p []" by auto
  from scenarios_labels [OF this assms(3)]
  obtain s r where sr: "s \<in> set users" "r \<in> set users" "s \<noteq> r" "label = flow_label s r"
    by auto
  then have "inj_on name (set users) \<longrightarrow> name s \<noteq> name r"
    by (auto dest: inj_onD)
  with sr show ?thesis by blast
qed

theorem no_self_transfer_witness:
  "analyze_mixer_privacy [''A'' \<mapsto> Fin 100, ''B'' \<mapsto> Fin 100]
     [''A'' \<mapsto> Fin 90, ''B'' \<mapsto> Fin 110] [10]
     [\<lparr>uid = 0, name = ''A''\<rparr>, \<lparr>uid = 1, name = ''B''\<rparr>] = Inr {{(''A -> B'', 10)}}
   \<and> (\<exists>sender\<in>set [\<lparr>uid = 0, name = ''A''\<rparr>, \<lparr>uid = 1, name = ''B''\<rparr>].
       \<exists>receiver\<in>set [\<lparr>uid = 0, name = ''A''\<rparr>, \<lparr>uid = 1, name = ''B''\<rparr>].
         sender \<noteq> receiver \<and> ''A -> B'' = flow_label sender receiver
       \<and> name sender \<noteq> name receiver)"
proof -
  let ?U = "[\<lparr>uid = 0, name = ''A''\<rparr>, \<lparr>uid = 1, name = ''B''\<rparr>]"
  have run: "analyze_mixer_privacy [''A'' \<mapsto> Fin 100, ''B'' \<mapsto> Fin 100]
      [''A'' \<mapsto> Fin 90, ''B'' \<mapsto> Fin 110] [10] ?U = Inr {{(''A -> B'', 10)}}"
    by (rule analyze_two_users)
  have inj: "inj_on name (set ?U)" by simp
  from no_self_transfer [OF run, of "{(''A -> B'', 10)}" "''A -> B''" 10] inj
  have "\<exists>sender\<in>set ?U. \<exists>receiver\<in>set ?U.
         sender \<noteq> receiver \<and> ''A -> B'' = flow_label sender receiver
       \<and> name sender \<noteq> name receiver"
    by blast
  with run show ?thesis by blast
qed

section \<open>Conservation of the total balance\<close>

lemma exact_balancesD:
  assumes "exact_balances k M users b" "u \<in> set users"
  shows "\<exists>x. b (name u) = Some (Fin x) \<and> multiple_of k x \<and> \<bar>x\<bar> \<le> M"
proof -
  from assms have c: "case b (name u) of Some (Fin x) \<Rightarrow> multiple_of k x \<and> \<bar>x\<bar> \<le> M | _ \<Rightarrow> False"
    by (simp add: exact_balances_def)
  then obtain v where v: "b (name u) = Some v" by (cases "b (name u)") auto
  with c obtain x where "v = Fin x" by (cases v) auto
  with c v show ?thesis by simp
qed

lemma exact_balancesI:
  assumes "\<And>u. u \<in> set users \<Longrightarrow> \<exists>x. b (name u) = Some (Fin x) \<and> multiple_of k x \<and> \<bar>x\<bar> \<le> M"
  shows "exact_balances k M users b"
  unfolding exact_balances_def
proof
  fix u assume "u \<in> set users"
  from assms [OF this] obtain x where "b (name u) = Some (Fin x)" "multiple_of k x" "\<bar>x\<bar> \<le> M"
    by blast
  then show "case b (name u) of Some (Fin x) \<Rightarrow> multiple_of k x \<and> \<bar>x\<bar> \<le> M | _ \<Rightarrow> False"
    by simp
qed

lemma exact_balances_dom: "exact_balances k M users b \<Longrightarrow> name ` set users \<subseteq> dom b"
  by (auto dest!: exact_balancesD)

lemma sum_fun_upd:
  fixes f :: "'a \<Rightarrow> real"
  assumes "finite A" "x \<in> A"
  shows "(\<Sum>n\<in>A. (f(x := v)) n) = (\<Sum>n\<in>A. f n) - f x + v"
proof -
  have "(\<Sum>n\<in>A. (f(x := v)) n) = v + (\<Sum>n\<in>A - {x}. (f(x := v)) n)"
    using assms by (simp add: sum.remove)
  also have "(\<Sum>n\<in>A - {x}. (f(x := v)) n) = (\<Sum>n\<in>A - {x}. f n)"
    by (rule sum.cong) auto
  also have "(\<Sum>n\<in>A. f n) = f x + (\<Sum>n\<in>A - {x}. f n)"
    using assms by (simp add: sum.remove)
  ultimately show ?thesis by simp
qed

lemma new_balances_exact:
  assumes eb: "exact_balances k B users cur"
    and s: "s \<in> set users" and r: "r \<in> set users"
    and a: "multiple_of k a"
    and bound: "B + \<bar>a\<bar> < 2 ^ 53 * 2 powi k"
    and k: "- 1074 \<le> k" "k \<le> 970"
  shows "\<exists>nb. new_balances cur s r a = Inr nb
           \<and> exact_balances k (B + \<bar>a\<bar>) users nb
           \<and> total_balance users nb = total_balance users cur"
proof -
  let ?A = "name ` set users"
  let ?f = "\<lambda>n. value_of (cur n)"
  from exact_balancesD [OF eb s] obtain xs
    where xs: "cur (name s) = Some (Fin xs)" "multiple_of k xs" "\<bar>xs\<bar> \<le> B" by blast
  from exact_balancesD [OF eb r] obtain xr
    where xr: "cur (name r) = Some (Fin xr)" "multiple_of k xr" "\<bar>xr\<bar> \<le> B" by blast
  have sub: "round_double (xs - a) = Fin (xs - a)"
    by (rule round_double_exact [OF multiple_of_diff [OF xs(2) a] _ k])
       (use xs(3) bound in linarith)
  define xr' where "xr' = (if name r = name s then xs - a else xr)"
  have mid: "(cur(name s \<mapsto> Fin (xs - a))) (name r) = Some (Fin xr')"
    using xr(1) by (simp add: xr'_def)
  have xr'm: "multiple_of k (xr' + a)"
    unfolding xr'_def using multiple_of_add [OF xr(2) a] xs(2) by simp
  have xr'b: "\<bar>xr' + a\<bar> \<le> B + \<bar>a\<bar>"
    unfolding xr'_def using xs(3) xr(3) by (simp split: if_splits) linarith
  have add: "round_double (xr' + a) = Fin (xr' + a)"
    by (rule round_double_exact [OF xr'm _ k]) (use xr'b bound in linarith)
  define nb where "nb = (cur(name s \<mapsto> Fin (xs - a)))(name r \<mapsto> Fin (xr' + a))"
  have run: "new_balances cur s r a = Inr nb"
    by (simp add: new_balances_def Let_def xs(1) sub mid add nb_def del: fun_upd_apply)
  have exact: "exact_balances k (B + \<bar>a\<bar>) users nb"
  proof (rule exact_balancesI)
    fix u assume u: "u \<in> set users"
    from exact_balancesD [OF eb u] obtain x
      where x: "cur (name u) = Some (Fin x)" "multiple_of k x" "\<bar>x\<bar> \<le> B" by blast
    show "\<exists>x. nb (name u) = Some (Fin x) \<and> multiple_of k x \<and> \<bar>x\<bar> \<le> B + \<bar>a\<bar>"
    proof (cases "name u = name r")
      case True
      with xr'm xr'b show ?thesis by (simp add: nb_def)
    next
      case False
      show ?thesis
      proof (cases "name u = name s")
        case True
        have "\<bar>xs - a\<bar> \<le> B + \<bar>a\<bar>" using xs(3) by linarith
        with True False multiple_of_diff [OF xs(2) a] show ?thesis by (simp add: nb_def)
      next
        case other: False
        have "\<bar>x\<bar> \<le> B + \<bar>a\<bar>" using x(3) by linarith
        with other False x show ?thesis by (simp add: nb_def)
      qed
    qed
  qed
  have fin: "finite ?A" and mem: "name s \<in> ?A" "name r \<in> ?A"
    using s r by auto
  have eq: "(\<lambda>n. value_of (nb n)) = (?f(name s := xs - a))(name r := xr' + a)"
    unfolding nb_def by (rule ext) (simp add: value_of_def)
  have "total_balance users nb = (\<Sum>n\<in>?A. ((?f(name s := xs - a))(name r := xr' + a)) n)"
    unfolding total_balance_def eq ..
  also have "\<dots> = (\<Sum>n\<in>?A. (?f(name s := xs - a)) n) - (?f(name s := xs - a)) (name r) + (xr' + a)"
    by (rule sum_fun_upd [OF fin mem(2)])
  also have "(\<Sum>n\<in>?A. (?f(name s := xs - a)) n) = (\<Sum>n\<in>?A. ?f n) - ?f (name s) + (xs - a)"
    by (rule sum_fun_upd [OF fin mem(1)])
  also have "(?f(name s := xs - a)) (name r) = xr'"
    using xr(1) by (simp add: xr'_def value_of_def)
  also have "?f (name s) = xs"
    using xs(1) by (simp add: value_of_def)
  finally have "total_balance users nb = total_balance users cur"
    by (simp add: total_balance_def)
  with run exact show ?thesis by blast
qed

lemma scenarios_exact:
  assumes "sol \<in> scenarios users fin cur amounts path"
    and "exact_balances k B users cur"
    and "\<forall>a\<in>set amounts. multiple_of k a"
    and "B + sum_list (map abs amounts) < 2 ^ 53 * 2 powi k"
    and k: "- 1074 \<le> k" "k \<le> 970"
  shows "\<exists>b. balances_match b fin (map name users) = Inr True
           \<and> exact_balances k (B + sum_list (map abs amounts)) users b
           \<and> total_balance users b = total_balance users cur"
  using assms(1-4)
proof (induction amounts arbitrary: cur path B)
  case Nil
  then show ?case by (auto split: if_splits)
next
  case (Cons a amounts)
  from Cons.prems(1) obtain s r nb where sr: "s \<in> set users" "r \<in> set users"
    and nb: "new_balances cur s r a = Inr nb"
    and sol: "sol \<in> scenarios users fin nb amounts (path @ [(flow_label s r, a)])"
    unfolding scenarios_Cons_iff by blast
  have nonneg: "0 \<le> sum_list (map abs amounts)"
    by (rule sum_list_nonneg) auto
  from Cons.prems(3) have a: "multiple_of k a" by simp
  from Cons.prems(4) nonneg have bound: "B + \<bar>a\<bar> < 2 ^ 53 * 2 powi k" by simp
  from new_balances_exact [OF Cons.prems(2) sr a bound k] nb
  have ex: "exact_balances k (B + \<bar>a\<bar>) users nb"
    and tot: "total_balance users nb = total_balance users cur" by auto
  have "\<exists>b. balances_match b fin (map name users) = Inr True
           \<and> exact_balances k (B + \<bar>a\<bar> + sum_list (map abs amounts)) users b
           \<and> total_balance users b = total_balance users nb"
    by (rule Cons.IH [OF sol ex]) (use Cons.prems(3,4) in auto)
  with tot show ?case by (simp add: add.assoc)
qed

lemma balances_match_True:
  assumes "balances_match b fin ns = Inr True" "n \<in> set ns"
  shows "\<exists>c f. b n = Some c \<and> fin n = Some f \<and> flt (fabs (fsub c f)) tolerance"
  using assms by (induction ns) (auto split: option.splits if_splits)

lemma match_exact:
  assumes m: "balances_match b fin (map name users) = Inr True"
    and eb: "exact_balances k B users b" and ef: "exact_balances k M users fin"
    and bound: "B + M < 2 ^ 53 * 2 powi k"
    and k: "- 1074 \<le> k" "k \<le> 970"
    and u: "u \<in> set users"
  shows "\<bar>value_of (b (name u)) - value_of (fin (name u))\<bar> < tolerance_value"
proof -
  from exact_balancesD [OF eb u] obtain x
    where x: "b (name u) = Some (Fin x)" "multiple_of k x" "\<bar>x\<bar> \<le> B" by blast
  from exact_balancesD [OF ef u] obtain y
    where y: "fin (name u) = Some (Fin y)" "multiple_of k y" "\<bar>y\<bar> \<le> M" by blast
  have "round_double (x - y) = Fin (x - y)"
    by (rule round_double_exact [OF multiple_of_diff [OF x(2) y(2)] _ k])
       (use x(3) y(3) bound in linarith)
  moreover from balances_match_True [OF m, of "name u"] u x(1) y(1)
  have "flt (fabs (fsub (Fin x) (Fin y))) tolerance" by auto
  ultimately have "\<bar>x - y\<bar> < tolerance_value" by (simp add: tolerance_def)
  with x(1) y(1) show ?thesis by (simp add: value_of_def)
qed

lemma match_total:
  assumes m: "balances_match b fin (map name users) = Inr True"
    and eb: "exact_balances k B users b" and ef: "exact_balances k M users fin"
    and bound: "B + M < 2 ^ 53 * 2 powi k"
    and k: "- 1074 \<le> k" "k \<le> 970"
    and ne: "users \<noteq> []"
  shows "\<bar>total_balance users b - total_balance users fin\<bar>
           < real (card (name ` set users)) * tolerance_value"
proof -
  let ?A = "name ` set users"
  have A: "finite ?A" "?A \<noteq> {}" using ne by auto
  have close: "\<bar>value_of (b n) - value_of (fin n)\<bar> < tolerance_value" if "n \<in> ?A" for n
    using match_exact [OF m eb ef bound k] that by auto
  have "total_balance users b - total_balance users fin
      = (\<Sum>n\<in>?A. value_of (b n) - value_of (fin n))"
    by (simp add: total_balance_def sum_subtractf)
  also have "\<bar>\<dots>\<bar> \<le> (\<Sum>n\<in>?A. \<bar>value_of (b n) - value_of (fin n)\<bar>)"
    by (rule sum_abs)
  also have "\<dots> < (\<Sum>n\<in>?A. tolerance_value)"
    by (rule sum_strict_mono [OF A]) (use close in blast)
  finally show ?thesis by simp
qed

lemma sum_list_abs_mset:
  fixes p q :: "real list"
  assumes "mset p = mset q"
  shows "sum_list (map abs p) = sum_list (map abs q)"
proof -
  from assms have "mset (map abs p) = mset (map abs q)" by simp
  then show ?thesis by (metis sum_mset_sum_list)
qed

text \<open>
  Claim C1, amended. Take balances and amounts that are multiples of one power of two and
  so small that no operation of the search rounds, and let the totals of the initial and
  the final balances differ by at least \<open>P\<close> times the tolerance, \<open>P\<close> the number of
  participant names (the balance check is per participant). Then the analysis returns the
  empty solution set.
\<close>

theorem conservation_law:
  assumes k: "- 1074 \<le> k" "k \<le> 970"
    and ei: "exact_balances k M users initial_balances"
    and ef: "exact_balances k M users final_balances"
    and am: "\<forall>a\<in>set tx_amounts. multiple_of k a"
    and bound: "2 * M + sum_list (map abs tx_amounts) < 2 ^ 53 * 2 powi k"
    and differ: "total_balance users initial_balances \<noteq> total_balance users final_balances"
    and beyond: "real (card (name ` set users)) * tolerance_value
           \<le> \<bar>total_balance users initial_balances - total_balance users final_balances\<bar>"
  shows "analyze_mixer_privacy initial_balances final_balances tx_amounts users = Inr {}"
proof -
  from differ have ne: "users \<noteq> []" by (auto simp: total_balance_def)
  then obtain u where u: "u \<in> set users" by (cases users) auto
  from exact_balancesD [OF ei u] have M: "0 \<le> M" by fastforce
  let ?S = "sum_list (map abs tx_amounts)"
  have empty: "scenarios users final_balances initial_balances p [] = {}"
    if p: "mset p = mset tx_amounts" for p
  proof (rule ccontr)
    assume "scenarios users final_balances initial_balances p [] \<noteq> {}"
    then obtain sol where sol: "sol \<in> scenarios users final_balances initial_balances p []"
      by blast
    have S: "sum_list (map abs p) = ?S" by (rule sum_list_abs_mset [OF p])
    have "set p = set tx_amounts" by (rule mset_eq_setD [OF p])
    with am have amp: "\<forall>a\<in>set p. multiple_of k a" by simp
    have b1: "M + sum_list (map abs p) < 2 ^ 53 * 2 powi k" using bound M S by simp
    from scenarios_exact [OF sol ei amp b1 k] obtain b
      where b: "balances_match b final_balances (map name users) = Inr True"
        "exact_balances k (M + sum_list (map abs p)) users b"
        "total_balance users b = total_balance users initial_balances"
      by blast
    have b2: "M + sum_list (map abs p) + M < 2 ^ 53 * 2 powi k" using bound S by simp
    from match_total [OF b(1,2) ef b2 k ne] b(3) beyond show False by simp
  qed
  have wf: "name ` set users \<subseteq> dom initial_balances" "name ` set users \<subseteq> dom final_balances"
    using exact_balances_dom [OF ei] exact_balances_dom [OF ef] by simp_all
  show ?thesis
    using empty by (simp add: analyze_wf [OF wf])
qed

lemma round_double_tiny:
  "round_double (- (3 / 4294967296)) = Fin (- (3 / 4294967296))"
  by (rule round_double_exact [where k = "- 32"]) (simp_all add: multiple_of_def)

lemma round_double_twenty:
  "round_double (85899345917 / 4294967296) = Fin (85899345917 / 4294967296)"
  by (rule round_double_exact [where k = "- 32"]) (simp_all add: multiple_of_def)

lemma round_double_big_minus_one:
  "round_double 99999999999999999 = Fin 100000000000000000"
  using round_double_near [of 56 99999999999999999 6250000000000000] by simp

lemma round_double_big_plus_one:
  "round_double 100000000000000001 = Fin 100000000000000000"
  using round_double_near [of 56 100000000000000001 6250000000000000] by simp

theorem conservation_law_witness:
  "exact_balances 0 120 [\<lparr>uid = 0, name = ''A''\<rparr>, \<lparr>uid = 1, name = ''B''\<rparr>]
      [''A'' \<mapsto> Fin 100, ''B'' \<mapsto> Fin 100]
   \<and> exact_balances 0 120 [\<lparr>uid = 0, name = ''A''\<rparr>, \<lparr>uid = 1, name = ''B''\<rparr>]
      [''A'' \<mapsto> Fin 90, ''B'' \<mapsto> Fin 120]
   \<and> multiple_of 0 10 \<and> multiple_of 0 20
   \<and> total_balance [\<lparr>uid = 0, name = ''A''\<rparr>, \<lparr>uid = 1, name = ''B''\<rparr>]
        [''A'' \<mapsto> Fin 100, ''B'' \<mapsto> Fin 100] = 200
   \<and> total_balance [\<lparr>uid = 0, name = ''A''\<rparr>, \<lparr>uid = 1, name = ''B''\<rparr>]
        [''A'' \<mapsto> Fin 90, ''B'' \<mapsto> Fin 120] = 210
   \<and> analyze_mixer_privacy [''A'' \<mapsto> Fin 100, ''B'' \<mapsto> Fin 100]
        [''A'' \<mapsto> Fin 90, ''B'' \<mapsto> Fin 120] [10, 20]
        [\<lparr>uid = 0, name = ''A''\<rparr>, \<lparr>uid = 1, name = ''B''\<rparr>] = Inr {}"
proof -
  let ?U = "[\<lparr>uid = 0, name = ''A''\<rparr>, \<lparr>uid = 1, name = ''B''\<rparr>]"
  have m: "multiple_of 0 10" "multiple_of 0 20" "multiple_of 0 100" "multiple_of 0 90"
    "multiple_of 0 120"
    by (simp_all add: multiple_of_def)
  have e1: "exact_balances 0 120 ?U [''A'' \<mapsto> Fin 100, ''B'' \<mapsto> Fin 100]"
    by (simp add: exact_balances_def m)
  have e2: "exact_balances 0 120 ?U [''A'' \<mapsto> Fin 90, ''B'' \<mapsto> Fin 120]"
    by (simp add: exact_balances_def m)
  have t1: "total_balance ?U [''A'' \<mapsto> Fin 100, ''B'' \<mapsto> Fin 100] = 200"
    by (simp add: total_balance_def value_of_def)
  have t2: "total_balance ?U [''A'' \<mapsto> Fin 90, ''B'' \<mapsto> Fin 120] = 210"
    by (simp add: total_balance_def value_of_def)
  have c: "card (name ` set ?U) = 2" by simp
  have "analyze_mixer_privacy [''A'' \<mapsto> Fin 100, ''B'' \<mapsto> Fin 100]
      [''A'' \<mapsto> Fin 90, ''B'' \<mapsto> Fin 120] [10, 20] ?U = Inr {}"
  proof (rule conservation_law [where k = 0 and M = 120, OF _ _ e1 e2])
    show "\<forall>a\<in>set [10, 20]. multiple_of 0 a" using m by simp
    show "2 * 120 + sum_list (map abs [10, 20 :: real]) < 2 ^ 53 * 2 powi 0" by simp
    show "total_balance ?U [''A'' \<mapsto> Fin 100, ''B'' \<mapsto> Fin 100]
        \<noteq> total_balance ?U [''A'' \<mapsto> Fin 90, ''B'' \<mapsto> Fin 120]"
      unfolding t1 t2 by simp
    show "real (card (name ` set ?U)) * tolerance_value
        \<le> \<bar>total_balance ?U [''A'' \<mapsto> Fin 100, ''B'' \<mapsto> Fin 100]
            - total_balance ?U [''A'' \<mapsto> Fin 90, ''B'' \<mapsto> Fin 120]\<bar>"
      unfolding t1 t2 c by (simp add: tolerance_value_def)
  qed simp_all
  with e1 e2 m t1 t2 show ?thesis by blast
qed

lemma analyze_within_tolerance:
  "analyze_mixer_privacy [''A'' \<mapsto> Fin 100, ''B'' \<mapsto> Fin 100]
     [''A'' \<mapsto> Fin (386547056643 / 4294967296), ''B'' \<mapsto> Fin (472446402563 / 4294967296)] [10]
     [\<lparr>uid = 0, name = ''A''\<rparr>, \<lparr>uid = 1, name = ''B''\<rparr>]
   = Inr {{(''A -> B'', 10)}}"
  by (simp add: analyze_mixer_privacy_def amount_permutations_def permutations_single
      run_orderings_def find_solutions_recursive.simps new_balances_def flow_label_def
      tolerance_def tolerance_value_def round_double_tiny round_double_twenty)

lemma analyze_absorbed:
  "analyze_mixer_privacy [''A'' \<mapsto> Fin 100000000000000000, ''B'' \<mapsto> Fin 0]
     [''A'' \<mapsto> Fin 100000000000000000, ''B'' \<mapsto> Fin 1] [1]
     [\<lparr>uid = 0, name = ''A''\<rparr>, \<lparr>uid = 1, name = ''B''\<rparr>]
   = Inr {{(''A -> B'', 1)}}"
  by (simp add: analyze_mixer_privacy_def amount_permutations_def permutations_single
      run_orderings_def find_solutions_recursive.simps new_balances_def flow_label_def
      tolerance_def tolerance_value_def round_double_big_minus_one round_double_big_plus_one)

text \<open>
  The claim as stated fails in two ways. With the final balances \<open>90 + 3 / 2 ^ 32\<close> and
  \<open>110 + 3 / 2 ^ 32\<close> the totals differ by \<open>1.4e-9\<close>, more than the tolerance, and the
  scenario \<open>A -> B\<close> is accepted, each participant being \<open>7e-10\<close> away from its final
  balance. With the balances \<open>1e17\<close> and \<open>0.0\<close> going to \<open>1e17\<close> and \<open>1.0\<close> the totals
  differ by 1, and the scenario \<open>A -> B\<close> is accepted because \<open>1e17 - 1.0\<close> is \<open>1e17\<close> again.
\<close>

theorem conservation_tolerance_counterexample:
  "tolerance_value <
     \<bar>total_balance [\<lparr>uid = 0, name = ''A''\<rparr>, \<lparr>uid = 1, name = ''B''\<rparr>]
         [''A'' \<mapsto> Fin 100, ''B'' \<mapsto> Fin 100]
      - total_balance [\<lparr>uid = 0, name = ''A''\<rparr>, \<lparr>uid = 1, name = ''B''\<rparr>]
         [''A'' \<mapsto> Fin (386547056643 / 4294967296), ''B'' \<mapsto> Fin (472446402563 / 4294967296)]\<bar>
   \<and> analyze_mixer_privacy [''A'' \<mapsto> Fin 100, ''B'' \<mapsto> Fin 100]
        [''A'' \<mapsto> Fin (386547056643 / 4294967296), ''B'' \<mapsto> Fin (472446402563 / 4294967296)]
        [10] [\<lparr>uid = 0, name = ''A''\<rparr>, \<lparr>uid = 1, name = ''B''\<rparr>]
      \<noteq> Inr {}
   \<and> 1 \<le>
     \<bar>total_balance [\<lparr>uid = 0, name = ''A''\<rparr>, \<lparr>uid = 1, name = ''B''\<rparr>]
         [''A'' \<mapsto> Fin 100000000000000000, ''B'' \<mapsto> Fin 0]
      - total_balance [\<lparr>uid = 0, name = ''A''\<rparr>, \<lparr>uid = 1, name = ''B''\<rparr>]
         [''A'' \<mapsto> Fin 100000000000000000, ''B'' \<mapsto> Fin 1]\<bar>
   \<and> analyze_mixer_privacy [''A'' \<mapsto> Fin 100000000000000000, ''B'' \<mapsto> Fin 0]
        [''A'' \<mapsto> Fin 100000000000000000, ''B'' \<mapsto> Fin 1]
        [1] [\<lparr>uid = 0, name = ''A''\<rparr>, \<lparr>uid = 1, name = ''B''\<rparr>]
      \<noteq> Inr {}"
proof -
  let ?U = "[\<lparr>uid = 0, name = ''A''\<rparr>, \<lparr>uid = 1, name = ''B''\<rparr>]"
  let ?fin = "[''A'' \<mapsto> Fin (386547056643 / 4294967296), ''B'' \<mapsto> Fin (472446402563 / 4294967296)]"
  let ?big = "[''A'' \<mapsto> Fin 100000000000000000, ''B'' \<mapsto> Fin 0]"
  let ?big' = "[''A'' \<mapsto> Fin 100000000000000000, ''B'' \<mapsto> Fin 1]"
  have sums: "tolerance_value
      < \<bar>total_balance ?U [''A'' \<mapsto> Fin 100, ''B'' \<mapsto> Fin 100] - total_balance ?U ?fin\<bar>"
    by (simp add: total_balance_def value_of_def tolerance_value_def)
  have "analyze_mixer_privacy [''A'' \<mapsto> Fin 100, ''B'' \<mapsto> Fin 100] ?fin [10] ?U
      = Inr {{(''A -> B'', 10)}}"
    by (rule analyze_within_tolerance)
  then have run: "analyze_mixer_privacy [''A'' \<mapsto> Fin 100, ''B'' \<mapsto> Fin 100] ?fin [10] ?U \<noteq> Inr {}"
    by simp
  have sums': "1 \<le> \<bar>total_balance ?U ?big - total_balance ?U ?big'\<bar>"
    by (simp add: total_balance_def value_of_def)
  have "analyze_mixer_privacy ?big ?big' [1] ?U = Inr {{(''A -> B'', 1)}}"
    by (rule analyze_absorbed)
  then have run': "analyze_mixer_privacy ?big ?big' [1] ?U \<noteq> Inr {}"
    by simp
  from sums run sums' run' show ?thesis by (intro conjI)
qed

section \<open>Independence of the traversal order\<close>

lemma scenarios_users_order:
  assumes "set users' = set users"
    and "name ` set users \<subseteq> dom fin" "name ` set users \<subseteq> dom cur"
  shows "scenarios users' fin cur amounts path = scenarios users fin cur amounts path"
  using assms(3)
proof (induction amounts arbitrary: cur path)
  case Nil
  have "set (map name users') = set (map name users)"
    using assms(1) by simp
  moreover have "set (map name users) \<subseteq> dom cur" "set (map name users) \<subseteq> dom fin"
    using Nil assms(2) by auto
  ultimately show ?case
    by (simp add: balances_match_wf)
next
  case (Cons a amounts)
  have IH: "scenarios users' fin nb amounts p = scenarios users fin nb amounts p"
    if "new_balances cur s r a = Inr nb" for s r nb p
    using Cons.IH [of nb p] new_balances_dom [OF that] Cons.prems by simp
  show ?case
  proof (rule set_eqI)
    fix sol
    show "sol \<in> scenarios users' fin cur (a # amounts) path
      \<longleftrightarrow> sol \<in> scenarios users fin cur (a # amounts) path"
      unfolding scenarios_Cons_iff assms(1) using IH by metis
  qed
qed

text \<open>
  Claim C9. For participants that have an initial and a final balance, the solution set
  does not depend on the order of traversal: running the search over any enumeration of
  the distinct orderings (in any order, with repetitions) and over any listing of the same
  users gives the result of the analysis. The set is a function of the inputs alone.
\<close>

theorem solution_set_order_independent:
  assumes "name ` set users \<subseteq> dom initial_balances"
    and "name ` set users \<subseteq> dom final_balances"
    and "set orderings = set (amount_permutations tx_amounts)"
    and "set users' = set users"
  shows "run_orderings users' final_balances (length tx_amounts) initial_balances orderings
       = analyze_mixer_privacy initial_balances final_balances tx_amounts users"
proof -
  have len: "length p = length tx_amounts" if "p \<in> set orderings" for p
    using that assms(3) length_of_ordering by blast
  have wf': "name ` set users' \<subseteq> dom initial_balances" "name ` set users' \<subseteq> dom final_balances"
    using assms(1,2,4) by simp_all
  from run_orderings_wf [of orderings "length tx_amounts", OF len wf']
  have "run_orderings users' final_balances (length tx_amounts) initial_balances orderings
      = Inr (\<Union>p\<in>{p. mset p = mset tx_amounts}. scenarios users' final_balances initial_balances p [])"
    by (simp only: assms(3) set_amount_permutations)
  also have "\<dots> = analyze_mixer_privacy initial_balances final_balances tx_amounts users"
    by (simp only: analyze_wf [OF assms(1,2)]
          scenarios_users_order [OF assms(4) assms(2) assms(1)])
  finally show ?thesis .
qed

theorem solution_set_order_independent_witness:
  "name ` set [\<lparr>uid = 0, name = ''A''\<rparr>, \<lparr>uid = 1, name = ''B''\<rparr>]
      \<subseteq> dom [''A'' \<mapsto> Fin 100, ''B'' \<mapsto> Fin 100]
   \<and> name ` set [\<lparr>uid = 0, name = ''A''\<rparr>, \<lparr>uid = 1, name = ''B''\<rparr>]
      \<subseteq> dom [''A'' \<mapsto> Fin 90, ''B'' \<mapsto> Fin 110]
   \<and> set [[10], [10]] = set (amount_permutations [10])
   \<and> set [\<lparr>uid = 1, name = ''B''\<rparr>, \<lparr>uid = 0, name = ''A''\<rparr>]
      = set [\<lparr>uid = 0, name = ''A''\<rparr>, \<lparr>uid = 1, name = ''B''\<rparr>]
   \<and> run_orderings [\<lparr>uid = 1, name = ''B''\<rparr>, \<lparr>uid = 0, name = ''A''\<rparr>]
        [''A'' \<mapsto> Fin 90, ''B'' \<mapsto> Fin 110] (length [10::real]) [''A'' \<mapsto> Fin 100, ''B'' \<mapsto> Fin 100]
        [[10], [10]]
      = Inr {{(''A -> B'', 10)}}"
proof -
  let ?U = "[\<lparr>uid = 0, name = ''A''\<rparr>, \<lparr>uid = 1, name = ''B''\<rparr>]"
  let ?U' = "[\<lparr>uid = 1, name = ''B''\<rparr>, \<lparr>uid = 0, name = ''A''\<rparr>]"
  have d1: "name ` set ?U \<subseteq> dom [''A'' \<mapsto> Fin 100, ''B'' \<mapsto> Fin 100]" by simp
  have d2: "name ` set ?U \<subseteq> dom [''A'' \<mapsto> Fin 90, ''B'' \<mapsto> Fin 110]" by simp
  have ps: "set [[10], [10]] = set (amount_permutations [10])"
    by (simp add: amount_permutations_def permutations_single)
  have us: "set ?U' = set ?U" by auto
  from solution_set_order_independent [OF d1 d2 ps us]
  have "run_orderings ?U' [''A'' \<mapsto> Fin 90, ''B'' \<mapsto> Fin 110] (length [10::real])
      [''A'' \<mapsto> Fin 100, ''B'' \<mapsto> Fin 100] [[10], [10]] = Inr {{(''A -> B'', 10)}}"
    by (simp only: analyze_two_users)
  with d1 d2 ps us show ?thesis by blast
qed

section \<open>The size of the search\<close>

lemma fold_fst:
  assumes "\<And>x acc. x \<in> set xs \<Longrightarrow> fst (h' x acc) = h x (fst acc)"
  shows "fst (fold h' xs acc) = fold h xs (fst acc)"
  using assms by (induction xs arbitrary: acc) simp_all

lemma fold_count_le:
  fixes \<mu> :: "'b \<Rightarrow> nat"
  assumes "\<And>x acc. x \<in> set xs \<Longrightarrow> \<mu> (h x acc) \<le> \<mu> acc + w x"
  shows "\<mu> (fold h xs acc) \<le> \<mu> acc + sum_list (map w xs)"
  using assms
proof (induction xs arbitrary: acc)
  case Nil
  then show ?case by simp
next
  case (Cons x xs)
  have "\<mu> (fold h xs (h x acc)) \<le> \<mu> (h x acc) + sum_list (map w xs)"
    by (rule Cons.IH) (simp add: Cons.prems)
  also have "\<mu> (h x acc) \<le> \<mu> acc + w x"
    by (rule Cons.prems) simp
  finally show ?case by simp
qed

lemma counted_base:
  "find_solutions_counted users fin N N cur path oa S c v =
     (case balances_match cur fin (map name users) of
        Inl e \<Rightarrow> (Inl e, c + 1, v + 1)
      | Inr ok \<Rightarrow> (Inr (if ok then insert (set path) S else S), c + 1, v + 1))"
  by (subst find_solutions_counted.simps) simp

lemma counted_stop:
  assumes "i \<noteq> N" "length oa \<le> i"
  shows "find_solutions_counted users fin N i cur path oa S c v = (Inl IndexError, c + 1, v)"
  using assms by (subst find_solutions_counted.simps) simp

lemma fsr_stop:
  assumes "i \<noteq> N" "length oa \<le> i"
  shows "find_solutions_recursive users fin N i cur path oa S = Inl IndexError"
  using assms by (subst find_solutions_recursive.simps) simp

lemma counted_step:
  assumes "i \<noteq> N" "i < length oa"
  shows "find_solutions_counted users fin N i cur path oa S c v =
     fold (\<lambda>sender acc.
       fold (\<lambda>receiver acc.
         case fst acc of
           Inl e \<Rightarrow> acc
         | Inr sols \<Rightarrow>
             if sender = receiver then acc
             else
               (case new_balances cur sender receiver (oa ! i) of
                  Inl e \<Rightarrow> (Inl e, snd acc)
                | Inr nb \<Rightarrow>
                    find_solutions_counted users fin N (i + 1) nb
                      (path @ [(flow_label sender receiver, oa ! i)]) oa sols
                      (fst (snd acc)) (snd (snd acc))))
         users acc)
       users (Inr S, c + 1, v)"
  using assms by (subst find_solutions_counted.simps) (simp add: Let_def)

lemma fsr_step_general:
  assumes "i \<noteq> N" "i < length oa"
  shows "find_solutions_recursive users fin N i cur path oa S =
     fold (\<lambda>sender acc.
       fold (\<lambda>receiver acc.
         case acc of
           Inl e \<Rightarrow> Inl e
         | Inr sols \<Rightarrow>
             if sender = receiver then Inr sols
             else
               (case new_balances cur sender receiver (oa ! i) of
                  Inl e \<Rightarrow> Inl e
                | Inr nb \<Rightarrow>
                    find_solutions_recursive users fin N (i + 1) nb
                      (path @ [(flow_label sender receiver, oa ! i)]) oa sols))
         users acc)
       users (Inr S)"
  using assms by (subst find_solutions_recursive.simps) (simp add: Let_def)

lemma counted_fst:
  "fst (find_solutions_counted users fin N i cur path oa S c v)
     = find_solutions_recursive users fin N i cur path oa S"
proof (induction "length oa - i" arbitrary: i cur path S c v rule: less_induct)
  case less
  show ?case
  proof (cases "i = N")
    case True
    then show ?thesis
      by (simp add: counted_base fsr_base split: sum.splits)
  next
    case False
    show ?thesis
    proof (cases "length oa \<le> i")
      case True
      with False show ?thesis by (simp add: counted_stop fsr_stop)
    next
      case stepc: False
      then have i: "i < length oa" by simp
      let ?a = "oa ! i"
      let ?inner' = "\<lambda>sender receiver acc.
         case fst acc of
           Inl e \<Rightarrow> acc
         | Inr sols \<Rightarrow>
             if sender = receiver then acc
             else
               (case new_balances cur sender receiver ?a of
                  Inl e \<Rightarrow> (Inl e, snd acc)
                | Inr nb \<Rightarrow>
                    find_solutions_counted users fin N (i + 1) nb
                      (path @ [(flow_label sender receiver, ?a)]) oa sols
                      (fst (snd acc)) (snd (snd acc)))"
      let ?inner = "\<lambda>sender receiver acc.
         case acc of
           Inl e \<Rightarrow> Inl e
         | Inr sols \<Rightarrow>
             if sender = receiver then Inr sols
             else
               (case new_balances cur sender receiver ?a of
                  Inl e \<Rightarrow> Inl e
                | Inr nb \<Rightarrow>
                    find_solutions_recursive users fin N (i + 1) nb
                      (path @ [(flow_label sender receiver, ?a)]) oa sols)"
      have IH: "fst (find_solutions_counted users fin N (Suc i) nb p oa T c' v')
          = find_solutions_recursive users fin N (Suc i) nb p oa T" for nb p T c' v'
        by (rule less) (use i in simp)
      have inner: "fst (?inner' s r acc) = ?inner s r (fst acc)" for s r acc
        by (cases acc) (auto simp: IH split: sum.splits)
      have outer: "fst (fold (?inner' s) users acc) = fold (?inner s) users (fst acc)" for s acc
        by (rule fold_fst [where h' = "?inner' s" and h = "?inner s"]) (rule inner)
      have "fst (fold (\<lambda>s acc. fold (?inner' s) users acc) users
                (Inr S :: error + solutions, c + 1, v))
          = fold (\<lambda>s acc. fold (?inner s) users acc) users
                (fst (Inr S :: error + solutions, c + 1, v))"
        by (rule fold_fst [where h' = "\<lambda>s acc. fold (?inner' s) users acc"
              and h = "\<lambda>s acc. fold (?inner s) users acc"]) (rule outer)
      then show ?thesis
        by (simp add: counted_step [OF False i] fsr_step_general [OF False i])
    qed
  qed
qed

lemma length_filter_others:
  assumes "s \<in> set users"
  shows "length (filter (\<lambda>r. s \<noteq> r) users) \<le> length users - 1"
proof -
  have "length (filter (\<lambda>r. s = r) users) + length (filter (\<lambda>r. s \<noteq> r) users) = length users"
    using sum_length_filter_compl [of "\<lambda>r. s = r" users] by simp
  moreover have "filter (\<lambda>r. s = r) users \<noteq> []"
    using assms by (auto simp: filter_empty_conv)
  then have "0 < length (filter (\<lambda>r. s = r) users)" by simp
  ultimately show ?thesis by linarith
qed

lemma sum_list_others:
  "sum_list (map (\<lambda>r. if s = r then 0 else c) users)
     = length (filter (\<lambda>r. s \<noteq> r) users) * (c::nat)"
  by (induction users) auto

text \<open>
  One step of the search: when every recursive call raises the counter \<open>\<mu>\<close> by at most
  \<open>c\<close>, the two loops raise it by at most \<open>P * (P - 1) * c\<close>.
\<close>

lemma loops_count_le:
  fixes \<mu> :: "(error + solutions) \<times> nat \<times> nat \<Rightarrow> nat"
  assumes keep: "\<And>e acc. \<mu> (Inl e, snd acc) = \<mu> acc"
    and call: "\<And>nb p T c' v'. \<mu> (find_solutions_counted users fin N (Suc i) nb p oa T c' v')
                  \<le> \<mu> (Inr T, c', v') + c"
    and same: "\<And>T T' cv. \<mu> (Inr T, cv) = \<mu> (Inr T', cv)"
  shows "\<mu> (fold (\<lambda>sender acc.
       fold (\<lambda>receiver acc.
         case fst acc of
           Inl e \<Rightarrow> acc
         | Inr sols \<Rightarrow>
             if sender = receiver then acc
             else
               (case new_balances cur sender receiver a of
                  Inl e \<Rightarrow> (Inl e, snd acc)
                | Inr nb \<Rightarrow>
                    find_solutions_counted users fin N (i + 1) nb
                      (path @ [(flow_label sender receiver, a)]) oa sols
                      (fst (snd acc)) (snd (snd acc))))
         users acc)
       users acc0)
     \<le> \<mu> acc0 + length users * (length users - 1) * c"
proof -
  let ?P = "length users"
  let ?inner' = "\<lambda>sender receiver acc.
         case fst acc of
           Inl e \<Rightarrow> acc
         | Inr sols \<Rightarrow>
             if sender = receiver then acc
             else
               (case new_balances cur sender receiver a of
                  Inl e \<Rightarrow> (Inl e, snd acc)
                | Inr nb \<Rightarrow>
                    find_solutions_counted users fin N (i + 1) nb
                      (path @ [(flow_label sender receiver, a)]) oa sols
                      (fst (snd acc)) (snd (snd acc)))"
  have inner: "\<mu> (?inner' s r acc) \<le> \<mu> acc + (if s = r then 0 else c)" for s r acc
  proof (cases acc)
    case (fields res c' v')
    show ?thesis
    proof (cases res)
      case (Inl e)
      with fields show ?thesis by simp
    next
      case (Inr T)
      show ?thesis
      proof (cases "s = r")
        case True
        with fields Inr show ?thesis by simp
      next
        case False
        show ?thesis
        proof (cases "new_balances cur s r a")
          case (Inl e)
          with fields Inr False keep [of e acc] show ?thesis by simp
        next
          case nb: (Inr nb)
          from call [of nb "path @ [(flow_label s r, a)]" T c' v']
          show ?thesis using fields Inr False nb by simp
        qed
      qed
    qed
  qed
  have outer: "\<mu> (fold (?inner' s) users acc) \<le> \<mu> acc + (?P - 1) * c"
    if "s \<in> set users" for s acc
  proof -
    have "\<mu> (fold (?inner' s) users acc)
        \<le> \<mu> acc + sum_list (map (\<lambda>r. if s = r then 0 else c) users)"
      by (rule fold_count_le [where h = "?inner' s" and w = "\<lambda>r. if s = r then 0 else c"])
         (rule inner)
    also have "sum_list (map (\<lambda>r. if s = r then 0 else c) users)
        = length (filter (\<lambda>r. s \<noteq> r) users) * c"
      by (rule sum_list_others)
    also have "\<dots> \<le> (?P - 1) * c"
      by (rule mult_le_mono1) (rule length_filter_others [OF that])
    finally show ?thesis by simp
  qed
  have "\<mu> (fold (\<lambda>s acc. fold (?inner' s) users acc) users acc0)
      \<le> \<mu> acc0 + sum_list (map (\<lambda>s. (?P - 1) * c) users)"
    by (rule fold_count_le [where h = "\<lambda>s acc. fold (?inner' s) users acc"
          and w = "\<lambda>s. (?P - 1) * c"]) (rule outer)
  also have "sum_list (map (\<lambda>s. (?P - 1) * c) users) = ?P * (?P - 1) * c"
    by (simp add: sum_list_triv)
  finally show ?thesis .
qed

lemma counted_visits:
  assumes "i \<le> N"
  shows "snd (snd (find_solutions_counted users fin N i cur path oa S c v))
     \<le> v + (length users * (length users - 1)) ^ (N - i)"
  using assms
proof (induction "N - i" arbitrary: i cur path S c v)
  case 0
  then have "i = N" by simp
  then show ?case
    by (simp add: counted_base split: sum.splits)
next
  case (Suc k)
  then have iN: "i \<noteq> N" "i < N" by simp_all
  let ?B = "length users * (length users - 1)"
  show ?case
  proof (cases "length oa \<le> i")
    case True
    with iN show ?thesis by (simp add: counted_stop)
  next
    case False
    then have i: "i < length oa" by simp
    have IH: "snd (snd (find_solutions_counted users fin N (Suc i) nb p oa T c' v'))
        \<le> v' + ?B ^ (N - Suc i)" for nb p T c' v'
      using Suc.hyps(1) [of "Suc i" nb p T c' v'] Suc.hyps(2) iN by simp
    have "snd (snd (find_solutions_counted users fin N i cur path oa S c v))
        \<le> snd (snd (Inr S :: error + solutions, c + 1, v)) + ?B * ?B ^ (N - Suc i)"
      unfolding counted_step [OF iN(1) i]
      by (rule loops_count_le [where \<mu> = "\<lambda>acc. snd (snd acc)"]) (use IH in simp_all)
    also have "?B * ?B ^ (N - Suc i) = ?B ^ (N - i)"
      using iN by (simp add: Suc_diff_Suc flip: power_Suc)
    finally show ?thesis by simp
  qed
qed

lemma geometric_step: "(\<Sum>j\<le>Suc k. B ^ j) = 1 + B * (\<Sum>j\<le>k. (B::nat) ^ j)"
  by (simp add: sum.atMost_Suc_shift sum_distrib_left del: sum.atMost_Suc)

lemma counted_calls:
  assumes "i \<le> N"
  shows "fst (snd (find_solutions_counted users fin N i cur path oa S c v))
     \<le> c + (\<Sum>j\<le>N - i. (length users * (length users - 1)) ^ j)"
  using assms
proof (induction "N - i" arbitrary: i cur path S c v)
  case 0
  then have "i = N" by simp
  then show ?case
    by (simp add: counted_base split: sum.splits)
next
  case (Suc k)
  then have iN: "i \<noteq> N" "i < N" by simp_all
  let ?B = "length users * (length users - 1)"
  from Suc.hyps(2) iN have k: "N - i = Suc k" "N - Suc i = k" by simp_all
  show ?case
  proof (cases "length oa \<le> i")
    case True
    with iN show ?thesis by (simp add: counted_stop k del: sum.atMost_Suc add: geometric_step)
  next
    case False
    then have i: "i < length oa" by simp
    have IH: "fst (snd (find_solutions_counted users fin N (Suc i) nb p oa T c' v'))
        \<le> c' + (\<Sum>j\<le>k. ?B ^ j)" for nb p T c' v'
      using Suc.hyps(1) [of "Suc i" nb p T c' v'] k iN by simp
    have "fst (snd (find_solutions_counted users fin N i cur path oa S c v))
        \<le> fst (snd (Inr S :: error + solutions, c + 1, v)) + ?B * (\<Sum>j\<le>k. ?B ^ j)"
      unfolding counted_step [OF iN(1) i]
      by (rule loops_count_le [where \<mu> = "\<lambda>acc. fst (snd acc)"]) (use IH in simp_all)
    then show ?thesis
      by (simp add: k geometric_step del: sum.atMost_Suc)
  qed
qed

lemma analyze_counted_fst:
  "fst (analyze_counted init fin amounts users) = analyze_mixer_privacy init fin amounts users"
proof -
  let ?h' = "\<lambda>p acc. case fst acc of Inl e \<Rightarrow> acc
     | Inr sols \<Rightarrow> find_solutions_counted users fin (length amounts) 0 init [] p sols
         (fst (snd acc)) (snd (snd acc))"
  let ?h = "\<lambda>p acc. case acc of Inl e \<Rightarrow> Inl e
     | Inr sols \<Rightarrow> find_solutions_recursive users fin (length amounts) 0 init [] p sols"
  have "fst (fold ?h' (amount_permutations amounts) (Inr {} :: error + solutions, 0::nat, 0::nat))
      = fold ?h (amount_permutations amounts) (fst (Inr {} :: error + solutions, 0::nat, 0::nat))"
  proof (rule fold_fst [where h' = ?h' and h = ?h])
    fix p acc
    show "fst (?h' p acc) = ?h p (fst acc)"
      by (cases acc) (auto simp: counted_fst split: sum.splits)
  qed
  then show ?thesis
    by (simp add: analyze_counted_def analyze_mixer_privacy_def run_orderings_def)
qed

lemma analyze_counted_le:
  fixes \<mu> :: "(error + solutions) \<times> nat \<times> nat \<Rightarrow> nat"
  assumes "\<And>p T c v. \<mu> (find_solutions_counted users fin (length amounts) 0 init [] p T c v)
              \<le> \<mu> (Inr T, c, v) + b"
    and "\<mu> (Inr {}, 0, 0) = 0"
  shows "\<mu> (analyze_counted init fin amounts users) \<le> fact (length amounts) * b"
proof -
  let ?h' = "\<lambda>p acc. case fst acc of Inl e \<Rightarrow> acc
     | Inr sols \<Rightarrow> find_solutions_counted users fin (length amounts) 0 init [] p sols
         (fst (snd acc)) (snd (snd acc))"
  have step: "\<mu> (?h' p acc) \<le> \<mu> acc + b" for p acc
  proof (cases acc)
    case (fields res c v)
    show ?thesis
    proof (cases res)
      case (Inl e)
      with fields show ?thesis by simp
    next
      case (Inr T)
      with fields assms(1) [of p T c v] show ?thesis by simp
    qed
  qed
  have "\<mu> (fold ?h' (amount_permutations amounts) (Inr {}, 0, 0))
      \<le> \<mu> (Inr {}, 0, 0) + sum_list (map (\<lambda>p. b) (amount_permutations amounts))"
    by (rule fold_count_le [where h = ?h' and w = "\<lambda>p. b"]) (rule step)
  also have "\<dots> = length (amount_permutations amounts) * b"
    by (simp add: sum_list_triv assms(2))
  also have "\<dots> \<le> fact (length amounts) * b"
    by (rule mult_le_mono1) (rule length_amount_permutations)
  finally show ?thesis
    by (simp add: analyze_counted_def)
qed

text \<open>
  Claim C8, amended. The search is a total function: its recursion is accepted with the
  measure \<open>length ordered_amounts - tx_index\<close>, the number of slots left. On every input
  (whatever the balances, the sign of the amounts or the number of users) the counted
  search computes what the analysis computes. For \<open>N\<close> amounts and \<open>P\<close> users, the number
  of calls of \<open>find_solutions_recursive\<close>, the nodes visited, is at most
  \<open>N!\<close> times the sum of \<open>(P * (P - 1)) ^ j\<close> for \<open>j = 0, \<dots>, N\<close>, and the number of complete
  assignments compared with the final balances is at most \<open>N! * (P * (P - 1)) ^ N\<close>.
\<close>

theorem search_space_bounded:
  "fst (analyze_counted initial_balances final_balances tx_amounts users)
     = analyze_mixer_privacy initial_balances final_balances tx_amounts users
   \<and> fst (snd (analyze_counted initial_balances final_balances tx_amounts users))
     \<le> fact (length tx_amounts)
         * (\<Sum>j\<le>length tx_amounts. (length users * (length users - 1)) ^ j)
   \<and> snd (snd (analyze_counted initial_balances final_balances tx_amounts users))
     \<le> fact (length tx_amounts) * (length users * (length users - 1)) ^ length tx_amounts"
proof (intro conjI)
  show "fst (analyze_counted initial_balances final_balances tx_amounts users)
     = analyze_mixer_privacy initial_balances final_balances tx_amounts users"
    by (rule analyze_counted_fst)
  show "fst (snd (analyze_counted initial_balances final_balances tx_amounts users))
     \<le> fact (length tx_amounts)
         * (\<Sum>j\<le>length tx_amounts. (length users * (length users - 1)) ^ j)"
    by (rule analyze_counted_le [where \<mu> = "\<lambda>acc. fst (snd acc)"])
       (use counted_calls [of 0 "length tx_amounts"] in simp_all)
  show "snd (snd (analyze_counted initial_balances final_balances tx_amounts users))
     \<le> fact (length tx_amounts) * (length users * (length users - 1)) ^ length tx_amounts"
    by (rule analyze_counted_le [where \<mu> = "\<lambda>acc. snd (snd acc)"])
       (use counted_visits [of 0 "length tx_amounts"] in simp_all)
qed

text \<open>
  The claim as stated, with \<open>N! * (P * (P - 1)) ^ N\<close> as a bound on the nodes visited,
  fails: with two users and one amount the function is entered 3 times, the bound being
  2, and with a single user it is entered once, the bound being 0.
\<close>

theorem search_nodes_counterexample:
  "fst (snd (analyze_counted [''A'' \<mapsto> Fin 100, ''B'' \<mapsto> Fin 100]
       [''A'' \<mapsto> Fin 90, ''B'' \<mapsto> Fin 110] [10]
       [\<lparr>uid = 0, name = ''A''\<rparr>, \<lparr>uid = 1, name = ''B''\<rparr>])) = 3
   \<and> fact (length [10::real])
       * (length [\<lparr>uid = 0, name = ''A''\<rparr>, \<lparr>uid = 1, name = ''B''\<rparr>]
          * (length [\<lparr>uid = 0, name = ''A''\<rparr>, \<lparr>uid = 1, name = ''B''\<rparr>] - 1)) ^ length [10::real]
     = (2::nat)
   \<and> fst (snd (analyze_counted [''A'' \<mapsto> Fin 100] [''A'' \<mapsto> Fin 100] [10]
       [\<lparr>uid = 0, name = ''A''\<rparr>])) = 1
   \<and> fact (length [10::real])
       * (length [\<lparr>uid = 0, name = ''A''\<rparr>] * (length [\<lparr>uid = 0, name = ''A''\<rparr>] - 1))
         ^ length [10::real]
     = (0::nat)"
  by (simp add: analyze_counted_def amount_permutations_def permutations_single
      find_solutions_counted.simps new_balances_def flow_label_def
      tolerance_def tolerance_value_def)

section \<open>The order of the printed pairs\<close>

lemma analyze_equal_amounts:
  "analyze_mixer_privacy [''A'' \<mapsto> Fin 100, ''B'' \<mapsto> Fin 100] [''A'' \<mapsto> Fin 100, ''B'' \<mapsto> Fin 100] [5, 5]
     [\<lparr>uid = 0, name = ''A''\<rparr>, \<lparr>uid = 1, name = ''B''\<rparr>]
   = Inr {{(''A -> B'', 5), (''B -> A'', 5)}}"
proof -
  have p: "permutations [5, 5 :: real] = [[5, 5], [5, 5]]"
    by (simp add: permutations.simps upt_rec)
  show ?thesis
    by (simp add: analyze_mixer_privacy_def amount_permutations_def p
      run_orderings_def find_solutions_recursive.simps new_balances_def flow_label_def
      tolerance_def tolerance_value_def insert_commute)
qed

text \<open>
  Claim C7. The report sorts the pairs of a solution by amount only. For the input below
  the one solution has two pairs of amount 5.0, and its display is whichever of the two
  enumerations of the frozenset the sort is given: pairs of equal amount are not put in
  the order of their labels, and the printed order follows the iteration order of the set.
\<close>

theorem solution_list_ties_unordered:
  "analyze_mixer_privacy [''A'' \<mapsto> Fin 100, ''B'' \<mapsto> Fin 100] [''A'' \<mapsto> Fin 100, ''B'' \<mapsto> Fin 100] [5, 5]
     [\<lparr>uid = 0, name = ''A''\<rparr>, \<lparr>uid = 1, name = ''B''\<rparr>]
   = Inr {{(''A -> B'', 5), (''B -> A'', 5)}}
   \<and> set [(''A -> B'', 5::real), (''B -> A'', 5)] = {(''A -> B'', 5), (''B -> A'', 5)}
   \<and> set [(''B -> A'', 5::real), (''A -> B'', 5)] = {(''A -> B'', 5), (''B -> A'', 5)}
   \<and> solution_list [(''A -> B'', 5), (''B -> A'', 5)] = [(''A -> B'', 5), (''B -> A'', 5)]
   \<and> solution_list [(''B -> A'', 5), (''A -> B'', 5)] = [(''B -> A'', 5), (''A -> B'', 5)]"
proof (intro conjI)
  show "analyze_mixer_privacy [''A'' \<mapsto> Fin 100, ''B'' \<mapsto> Fin 100] [''A'' \<mapsto> Fin 100, ''B'' \<mapsto> Fin 100]
      [5, 5] [\<lparr>uid = 0, name = ''A''\<rparr>, \<lparr>uid = 1, name = ''B''\<rparr>]
    = Inr {{(''A -> B'', 5), (''B -> A'', 5)}}"
    by (rule analyze_equal_amounts)
  show "set [(''A -> B'', 5::real), (''B -> A'', 5)] = {(''A -> B'', 5), (''B -> A'', 5)}"
    by simp
  show "set [(''B -> A'', 5::real), (''A -> B'', 5)] = {(''A -> B'', 5), (''B -> A'', 5)}"
    by auto
  show "solution_list [(''A -> B'', 5), (''B -> A'', 5)] = [(''A -> B'', 5), (''B -> A'', 5)]"
    by (simp add: solution_list_def)
  show "solution_list [(''B -> A'', 5), (''A -> B'', 5)] = [(''B -> A'', 5), (''A -> B'', 5)]"
    by (simp add: solution_list_def)
qed

section \<open>The transaction constructor of the public simulation\<close>

text \<open>
  Claim C10, amended. \<open>Transaction.__init__\<close> raises \<open>ValueError\<close> exactly when the float
  comparison \<open>sender_wallet.balance < amount\<close> is true, and then leaves the store as it
  was. When it succeeds and sender and receiver are different wallets, the sender's
  balance becomes the float difference \<open>balance - amount\<close> and the receiver's the float
  sum \<open>balance + amount\<close>, each rounded to the nearest float; when they are the same
  wallet, its balance becomes \<open>(balance - amount) + amount\<close>, rounded twice. No other
  wallet and no address is touched. When the balances and the amount are multiples of one
  power of two and small enough for the results to need no rounding, the sender's
  balance goes down by exactly the amount and the receiver's up by exactly the amount
  (so their total is kept), and a wallet paying itself keeps its balance.
\<close>

theorem transaction_transfer:
  "(fst (Transaction_init h sender_wallet receiver_wallet amt) = Inl ValueError
      \<longleftrightarrow> flt (balance (h sender_wallet)) amt)
   \<and> (flt (balance (h sender_wallet)) amt
      \<longrightarrow> snd (Transaction_init h sender_wallet receiver_wallet amt) = h)
   \<and> (\<not> flt (balance (h sender_wallet)) amt \<and> sender_wallet \<noteq> receiver_wallet
      \<longrightarrow> balance (snd (Transaction_init h sender_wallet receiver_wallet amt) sender_wallet)
            = fsub (balance (h sender_wallet)) amt
        \<and> balance (snd (Transaction_init h sender_wallet receiver_wallet amt) receiver_wallet)
            = fadd (balance (h receiver_wallet)) amt)
   \<and> (\<not> flt (balance (h sender_wallet)) amt \<and> sender_wallet = receiver_wallet
      \<longrightarrow> balance (snd (Transaction_init h sender_wallet receiver_wallet amt) sender_wallet)
            = fadd (fsub (balance (h sender_wallet)) amt) amt)
   \<and> (\<forall>w. w \<noteq> sender_wallet \<and> w \<noteq> receiver_wallet
      \<longrightarrow> snd (Transaction_init h sender_wallet receiver_wallet amt) w = h w)
   \<and> (\<forall>w. address (snd (Transaction_init h sender_wallet receiver_wallet amt) w) = address (h w))
   \<and> (\<not> flt (balance (h sender_wallet)) amt
        \<and> balance (h sender_wallet) = Fin x \<and> balance (h receiver_wallet) = Fin y \<and> amt = Fin a
        \<and> multiple_of k x \<and> multiple_of k y \<and> multiple_of k a
        \<and> \<bar>x\<bar> + \<bar>a\<bar> < 2 ^ 53 * 2 powi k \<and> \<bar>y\<bar> + \<bar>a\<bar> < 2 ^ 53 * 2 powi k
        \<and> - 1074 \<le> k \<and> k \<le> 970
      \<longrightarrow> (sender_wallet \<noteq> receiver_wallet
            \<longrightarrow> balance (snd (Transaction_init h sender_wallet receiver_wallet amt) sender_wallet)
                  = Fin (x - a)
              \<and> balance (snd (Transaction_init h sender_wallet receiver_wallet amt) receiver_wallet)
                  = Fin (y + a))
        \<and> (sender_wallet = receiver_wallet
            \<longrightarrow> balance (snd (Transaction_init h sender_wallet receiver_wallet amt) sender_wallet)
                  = Fin x))"
proof -
  have exact: "round_double (x - a) = Fin (x - a) \<and> round_double (y + a) = Fin (y + a)
      \<and> round_double (x - a + a) = Fin x"
    if "multiple_of k x" "multiple_of k y" "multiple_of k a"
      "\<bar>x\<bar> + \<bar>a\<bar> < 2 ^ 53 * 2 powi k" "\<bar>y\<bar> + \<bar>a\<bar> < 2 ^ 53 * 2 powi k"
      "- 1074 \<le> k" "k \<le> 970"
  proof (intro conjI)
    show "round_double (x - a) = Fin (x - a)"
      by (rule round_double_exact [OF multiple_of_diff [OF that(1,3)] _ that(6,7)])
         (use that(4) in linarith)
    show "round_double (y + a) = Fin (y + a)"
      by (rule round_double_exact [OF multiple_of_add [OF that(2,3)] _ that(6,7)])
         (use that(5) in linarith)
    have "round_double x = Fin x"
      by (rule round_double_exact [OF that(1) _ that(6,7)]) (use that(4) in linarith)
    then show "round_double (x - a + a) = Fin x" by simp
  qed
  show ?thesis
    using exact by (auto simp: Transaction_init_def Let_def)
qed

theorem transaction_transfer_witness:
  "balance (snd (Transaction_init alice_bob 0 1 (Fin 10)) 0) = Fin 90
   \<and> balance (snd (Transaction_init alice_bob 0 1 (Fin 10)) 1) = Fin 110
   \<and> fst (Transaction_init alice_bob 0 1 (Fin 200)) = Inl ValueError
   \<and> snd (Transaction_init alice_bob 0 1 (Fin 200)) = alice_bob"
proof -
  have b: "balance (alice_bob w) = Fin 100" for w
    by (simp add: alice_bob_def Wallet_init_def)
  have m: "multiple_of 0 100" "multiple_of 0 10"
    by (simp_all add: multiple_of_def)
  from transaction_transfer [of alice_bob 0 1 "Fin 10" 100 100 10 0]
    transaction_transfer [of alice_bob 0 1 "Fin 200"] m
  show ?thesis by (simp add: b)
qed

lemma round_double_absorbs_hundred:
  "round_double 1152921504606847076 = Fin 1152921504606846976"
  using round_double_near [of 60 1152921504606847076 4503599627370496] by simp

text \<open>
  The claim as stated fails when a wallet sends to itself: the call succeeds and the
  sender's balance, 100 before, is 100 afterwards and not 90. The updates also round:
  a wallet with balance 100 that sends \<open>-2 ^ 60\<close> to itself ends with the balance 0.
\<close>

theorem transaction_self_transfer_counterexample:
  "balance (alice_bob 0) = Fin 100
   \<and> fst (Transaction_init alice_bob 0 0 (Fin 10)) \<noteq> Inl ValueError
   \<and> balance (snd (Transaction_init alice_bob 0 0 (Fin 10)) 0) = Fin 100
   \<and> fst (Transaction_init alice_bob 0 0 (Fin (- (2 ^ 60)))) \<noteq> Inl ValueError
   \<and> balance (snd (Transaction_init alice_bob 0 0 (Fin (- (2 ^ 60)))) 0) = Fin 0"
  by (simp add: Transaction_init_def Let_def alice_bob_def Wallet_init_def
      round_double_absorbs_hundred)

end
